theory Spec2Isabelle
  imports Main "HOL-Library.Word" "HOL-Library.Sublist" "HOL-Library.AList"
    "HOL-Library.Char_ord" "HOL-Library.List_Lexorder" "HOL-Library.Multiset"
begin

unbundle bit_operations_syntax

section \<open>ZIP tail builder (zipAppend.ts)\<close>

text \<open>
  A \<open>Uint8Array\<close> is a list of 8-bit words. JavaScript numbers that hold sizes, offsets
  and field values are natural numbers here (they stay far below \<open>2^53\<close>); the loop index
  of \<open>findEocd\<close>, which may start below zero, is an integer. A thrown exception is the
  \<open>Inl\<close> branch of a sum; the constructors of \<open>error\<close> stand for the thrown messages:

  \<^item> \<open>RangeError\<close>: the \<open>RangeError\<close>s of \<open>u16\<close>, \<open>u32\<close> and \<open>parseCentralDirectory\<close>;
  \<^item> \<open>CallStackExceeded\<close>: the \<open>RangeError\<close> "Maximum call stack size exceeded" of a
    call that spreads more arguments than the engine takes;
  \<^item> \<open>Zip64Unsupported\<close>: "ZIP64 archives are not supported by zipAppend";
  \<^item> \<open>NotAZip\<close>: "EOCD signature not found -- not a valid ZIP file";
  \<^item> \<open>ReadFailed\<close>: "R2 range read failed";
  \<^item> \<open>InvalidBase64\<close>: the exception of \<open>atob\<close> on a string that is not base64;
  \<^item> \<open>InvalidDownloadURL\<close>, \<open>NotHttps\<close>, \<open>NotAppleHost\<close>, \<open>IpAddressHost\<close>: the four
    errors of \<open>validateDownloadURL\<close>;
  \<^item> \<open>InvalidAccountHash\<close>: "Invalid accountHash"; \<open>AlreadyDownloading\<close>: "Already
    downloading: ...", the conflict of \<open>createTask\<close>;
  \<^item> \<open>AbortError\<close>: the \<open>DOMException\<close> of a cancelled download; \<open>CdnStall\<close>: "CDN
    stall: ..."; \<open>FileTooLarge\<close>: "File too large";
  \<^item> \<open>ObjectNotFound\<close>: "R2 object not found for SINF injection"; \<open>RenameFailed\<close>: "R2
    rename step failed: new object missing"; \<open>BuildFilesFailed\<close>: the errors of
    \<open>buildFilesToAppend\<close>.
\<close>

type_synonym byte = "8 word"
type_synonym bytes = "byte list"

datatype error =
    RangeError | CallStackExceeded | Zip64Unsupported | NotAZip | ReadFailed
  | InvalidBase64
  | InvalidDownloadURL | NotHttps | NotAppleHost | IpAddressHost
  | InvalidAccountHash | AlreadyDownloading
  | AbortError | CdnStall | FileTooLarge
  | ObjectNotFound | RenameFailed | BuildFilesFailed

definition SIG_LOCAL :: nat where "SIG_LOCAL = 0x04034b50"
definition SIG_CD :: nat where "SIG_CD = 0x02014b50"
definition SIG_EOCD :: nat where "SIG_EOCD = 0x06054b50"
definition METHOD_STORED :: nat where "METHOD_STORED = 0"

subsection \<open>Low-level readers and writers (little-endian, bounds-checked)\<close>

text \<open>
  \<open>buf[off] | (buf[off + 1] << 8)\<close> joins disjoint byte lanes, so the bitwise or is a
  sum; \<open>>>> 0\<close> reads the 32-bit result as unsigned.
\<close>

definition rd16 :: "bytes \<Rightarrow> nat \<Rightarrow> nat" where
  "rd16 buf off = unat (buf ! off) + 256 * unat (buf ! (off + 1))"

definition rd32 :: "bytes \<Rightarrow> nat \<Rightarrow> nat" where
  "rd32 buf off = unat (buf ! off) + 256 * unat (buf ! (off + 1))
     + 65536 * unat (buf ! (off + 2)) + 16777216 * unat (buf ! (off + 3))"

definition u16 :: "bytes \<Rightarrow> nat \<Rightarrow> error + nat" where
  "u16 buf off = (if off + 2 > length buf then Inl RangeError else Inr (rd16 buf off))"

definition u32 :: "bytes \<Rightarrow> nat \<Rightarrow> error + nat" where
  "u32 buf off = (if off + 4 > length buf then Inl RangeError else Inr (rd32 buf off))"

text \<open>
  A store into a typed array keeps the low eight bits; a store past the end is ignored,
  as \<open>list_update\<close> out of range is.
\<close>

definition w16 :: "bytes \<Rightarrow> nat \<Rightarrow> nat \<Rightarrow> bytes" where
  "w16 buf off v = (buf[off := of_nat (v mod 256)])[off + 1 := of_nat ((v div 256) mod 256)]"

definition w32 :: "bytes \<Rightarrow> nat \<Rightarrow> nat \<Rightarrow> bytes" where
  "w32 buf off v =
     (((buf[off := of_nat (v mod 256)])
          [off + 1 := of_nat ((v div 256) mod 256)])
          [off + 2 := of_nat ((v div 65536) mod 256)])
          [off + 3 := of_nat ((v div 16777216) mod 256)]"

text \<open>\<open>buf.subarray(start, end)\<close> for \<open>start \<le> end\<close>; both ends are clamped to the buffer.\<close>

definition subarray :: "bytes \<Rightarrow> nat \<Rightarrow> nat \<Rightarrow> bytes" where
  "subarray buf start end = take (end - start) (drop start buf)"

subsection \<open>EOCD parsing\<close>

record Eocd =
  offset :: int
  entryCount :: nat
  cdSize :: nat
  cdOffset :: nat

text \<open>
  The loop \<open>for (let i = tail.length - 22; i >= tail.length - maxSearch; i--)\<close> of
  \<open>findEocd\<close>, from index \<open>i\<close> on. Leaving the loop (by its condition or by \<open>break\<close>)
  reaches the final \<open>throw\<close>.
\<close>

function findEocd_scan :: "bytes \<Rightarrow> nat \<Rightarrow> int \<Rightarrow> error + Eocd" where
  "findEocd_scan tail archiveSize i =
     (if i \<ge> int (length tail) - int (min (length tail) (65535 + 22)) then
        if i < 0 then Inl NotAZip
        else
          (case u32 tail (nat i) of
             Inl e \<Rightarrow> Inl e
           | Inr sig \<Rightarrow>
               if sig = SIG_EOCD then
                 (case u16 tail (nat i + 8) of
                    Inl e \<Rightarrow> Inl e
                  | Inr diskEntries \<Rightarrow>
                 (case u16 tail (nat i + 10) of
                    Inl e \<Rightarrow> Inl e
                  | Inr totalEntries \<Rightarrow>
                      if diskEntries \<noteq> totalEntries then findEocd_scan tail archiveSize (i - 1)
                      else
                        (case u32 tail (nat i + 12) of
                           Inl e \<Rightarrow> Inl e
                         | Inr cdSize' \<Rightarrow>
                        (case u32 tail (nat i + 16) of
                           Inl e \<Rightarrow> Inl e
                         | Inr cdOffsetRaw \<Rightarrow>
                             if cdOffsetRaw = 0xffffffff \<or> totalEntries = 0xffff
                             then Inl Zip64Unsupported
                             else Inr \<lparr> offset = i + (int archiveSize - int (length tail)),
                                        entryCount = totalEntries,
                                        cdSize = cdSize',
                                        cdOffset = cdOffsetRaw \<rparr>))))
               else findEocd_scan tail archiveSize (i - 1))
      else Inl NotAZip)"
  by pat_completeness auto
termination
  by (relation "measure (\<lambda>(tail, archiveSize, i). nat (i + 1))") auto

declare findEocd_scan.simps [simp del]

definition findEocd :: "bytes \<Rightarrow> nat \<Rightarrow> error + Eocd" where
  "findEocd tail archiveSize = findEocd_scan tail archiveSize (int (length tail) - 22)"

text \<open>
  The positions the scan treats as an end-of-central-directory record: inside the scanned
  window, carrying the signature, with equal disk-entries and total-entries fields.
\<close>

definition eocd_candidate :: "bytes \<Rightarrow> nat \<Rightarrow> bool" where
  "eocd_candidate tail i \<longleftrightarrow>
     i + 22 \<le> length tail \<and> length tail \<le> i + (65535 + 22) \<and>
     rd32 tail i = SIG_EOCD \<and> rd16 tail (i + 8) = rd16 tail (i + 10)"

text \<open>What \<open>findEocd\<close> answers at the candidate it stops at.\<close>

definition eocd_at :: "bytes \<Rightarrow> nat \<Rightarrow> nat \<Rightarrow> error + Eocd" where
  "eocd_at tail archiveSize i =
     (if rd32 tail (i + 16) = 0xffffffff \<or> rd16 tail (i + 10) = 0xffff
      then Inl Zip64Unsupported
      else Inr \<lparr> offset = int i + (int archiveSize - int (length tail)),
                 entryCount = rd16 tail (i + 10),
                 cdSize = rd32 tail (i + 12),
                 cdOffset = rd32 tail (i + 16) \<rparr>)"

text \<open>
  No field of the record at \<open>i\<close> that ZIP64 extends holds its sentinel: the two disk
  numbers, the two entry counts, the size and the offset of the central directory.
\<close>

definition no_sentinel :: "bytes \<Rightarrow> nat \<Rightarrow> bool" where
  "no_sentinel tail i \<longleftrightarrow>
     rd16 tail (i + 4) \<noteq> 0xffff \<and> rd16 tail (i + 6) \<noteq> 0xffff \<and>
     rd16 tail (i + 8) \<noteq> 0xffff \<and> rd16 tail (i + 10) \<noteq> 0xffff \<and>
     rd32 tail (i + 12) \<noteq> 0xffffffff \<and> rd32 tail (i + 16) \<noteq> 0xffffffff"

text \<open>A 22-byte record with the EOCD signature, 1 entry on this disk and 2 in total.\<close>

definition multi_disk_tail :: bytes where
  "multi_disk_tail = [0x50, 0x4b, 0x05, 0x06, 0, 0, 0, 0, 1, 0, 2, 0,
                      0, 0, 0, 0, 0, 0, 0, 0, 0, 0]"

text \<open>An empty archive: the EOCD record alone, no entries.\<close>

definition empty_zip :: bytes where
  "empty_zip = [0x50, 0x4b, 0x05, 0x06, 0, 0, 0, 0, 0, 0, 0, 0,
                0, 0, 0, 0, 0, 0, 0, 0, 0, 0]"

text \<open>The same record with the total-entries field at the ZIP64 sentinel \<open>0xFFFF\<close>.\<close>

definition zip64_tail :: bytes where
  "zip64_tail = [0x50, 0x4b, 0x05, 0x06, 0, 0, 0, 0, 0xff, 0xff, 0xff, 0xff,
                 0, 0, 0, 0, 0, 0, 0, 0, 0, 0]"

text \<open>
  The record of the empty archive with the central-directory size at its ZIP64 sentinel
  \<open>0xFFFFFFFF\<close>, and what \<open>findEocd\<close> reads from it.
\<close>

definition cdsize_sentinel_tail :: bytes where
  "cdsize_sentinel_tail = [0x50, 0x4b, 0x05, 0x06, 0, 0, 0, 0, 0, 0, 0, 0,
                           0xff, 0xff, 0xff, 0xff, 0, 0, 0, 0, 0, 0]"

definition cdsize_sentinel_eocd :: Eocd where
  "cdsize_sentinel_eocd = \<lparr> offset = 0, entryCount = 0, cdSize = 0xffffffff, cdOffset = 0 \<rparr>"

subsection \<open>CRC-32\<close>

text \<open>
  One entry of \<open>CRC_TABLE\<close>: eight rounds of
  \<open>c = c & 1 ? 0xedb88320 ^ (c >>> 1) : c >>> 1\<close>, starting from the index.
\<close>

definition crc_round :: "32 word \<Rightarrow> 32 word" where
  "crc_round c = (if c AND 1 \<noteq> 0 then 0xedb88320 XOR drop_bit 1 c else drop_bit 1 c)"

definition CRC_TABLE :: "nat \<Rightarrow> 32 word" where
  "CRC_TABLE i =
     crc_round (crc_round (crc_round (crc_round
       (crc_round (crc_round (crc_round (crc_round (of_nat i))))))))"

definition crc32 :: "bytes \<Rightarrow> nat" where
  "crc32 data' =
     unat (fold (\<lambda>b crc. CRC_TABLE (unat ((crc XOR ucast b) AND 0xff)) XOR drop_bit 8 crc)
             data' 0xffffffff
           XOR 0xffffffff)"

subsection \<open>Central directory entries\<close>

text \<open>
  A file name is kept as its UTF-8 bytes: \<open>TextDecoder\<close> and \<open>TextEncoder\<close> belong to the
  platform, and the functions below only measure and copy the name.
\<close>

record CdEntry =
  cd_name :: bytes
  cd_method :: nat
  cd_crc32 :: nat
  compressedSize :: nat
  uncompressedSize :: nat
  localOffset :: nat
  cdEntryOffset :: nat
  cdEntryLength :: nat
  extra :: bytes
  comment :: bytes
  raw :: bytes

text \<open>
  The \<open>while (pos < cd.length)\<close> loop of \<open>parseCentralDirectory\<close>, from \<open>pos\<close> on;
  \<open>entries.push\<close> is the cons of the entry in front of what the rest of the loop
  collects, and a \<open>throw\<close> discards what was collected.
\<close>

function parseCentralDirectory_from :: "bytes \<Rightarrow> nat \<Rightarrow> error + CdEntry list" where
  "parseCentralDirectory_from cd pos =
     (if pos < length cd then
        if pos + 4 > length cd then Inr []
        else
          (case u32 cd pos of
             Inl e \<Rightarrow> Inl e
           | Inr sig \<Rightarrow>
               if sig \<noteq> SIG_CD then Inr []
               else if pos + 46 > length cd then Inl RangeError
               else
                 (case u16 cd (pos + 10) of Inl e \<Rightarrow> Inl e | Inr method \<Rightarrow>
                 (case u32 cd (pos + 16) of Inl e \<Rightarrow> Inl e | Inr crc \<Rightarrow>
                 (case u32 cd (pos + 20) of Inl e \<Rightarrow> Inl e | Inr compSize \<Rightarrow>
                 (case u32 cd (pos + 24) of Inl e \<Rightarrow> Inl e | Inr uncompSize \<Rightarrow>
                 (case u16 cd (pos + 28) of Inl e \<Rightarrow> Inl e | Inr nameLen \<Rightarrow>
                 (case u16 cd (pos + 30) of Inl e \<Rightarrow> Inl e | Inr extraLen \<Rightarrow>
                 (case u16 cd (pos + 32) of Inl e \<Rightarrow> Inl e | Inr commentLen \<Rightarrow>
                 (case u32 cd (pos + 42) of Inl e \<Rightarrow> Inl e | Inr localOffset' \<Rightarrow>
                    if pos + 46 + nameLen + extraLen + commentLen > length cd then Inl RangeError
                    else
                      (case parseCentralDirectory_from cd
                              (pos + 46 + nameLen + extraLen + commentLen) of
                         Inl e \<Rightarrow> Inl e
                       | Inr entries \<Rightarrow>
                           Inr (\<lparr> cd_name = subarray cd (pos + 46) (pos + 46 + nameLen),
                                  cd_method = method,
                                  cd_crc32 = crc,
                                  compressedSize = compSize,
                                  uncompressedSize = uncompSize,
                                  localOffset = localOffset',
                                  cdEntryOffset = pos,
                                  cdEntryLength = pos + 46 + nameLen + extraLen + commentLen - pos,
                                  extra = subarray cd (pos + 46 + nameLen)
                                            (pos + 46 + nameLen + extraLen),
                                  comment = subarray cd (pos + 46 + nameLen + extraLen)
                                              (pos + 46 + nameLen + extraLen + commentLen),
                                  raw = subarray cd pos
                                          (pos + 46 + nameLen + extraLen + commentLen) \<rparr>
                                # entries)))))))))))
      else Inr [])"
  by pat_completeness auto
termination
  by (relation "measure (\<lambda>(cd, pos). length cd - pos)") auto

declare parseCentralDirectory_from.simps [simp del]

definition parseCentralDirectory :: "bytes \<Rightarrow> error + CdEntry list" where
  "parseCentralDirectory cd = parseCentralDirectory_from cd 0"

subsection \<open>Building new local file headers and central directory entries\<close>

text \<open>\<open>target.set(src, pos)\<close> where the source fits into the target.\<close>

definition buf_set :: "bytes \<Rightarrow> bytes \<Rightarrow> nat \<Rightarrow> bytes" where
  "buf_set target src pos = take pos target @ src @ drop (pos + length src) target"

definition buildLocalEntry :: "bytes \<Rightarrow> bytes \<Rightarrow> bytes" where
  "buildLocalEntry nameBytes data' =
     (let crc = crc32 data';
          size' = length data';
          header = replicate (30 + length nameBytes) 0;
          header = w32 header 0 SIG_LOCAL;
          header = w16 header 4 20;
          header = w16 header 6 0;
          header = w16 header 8 METHOD_STORED;
          header = w16 header 10 0;
          header = w16 header 12 0;
          header = w32 header 14 crc;
          header = w32 header 18 size';
          header = w32 header 22 size';
          header = w16 header 26 (length nameBytes);
          header = w16 header 28 0;
          header = buf_set header nameBytes 30
      in concat [header, data'])"

definition buildCdEntry :: "bytes \<Rightarrow> bytes \<Rightarrow> nat \<Rightarrow> bytes" where
  "buildCdEntry nameBytes data' localOffset' =
     (let crc = crc32 data';
          size' = length data';
          entry = replicate (46 + length nameBytes) 0;
          entry = w32 entry 0 SIG_CD;
          entry = w16 entry 4 20;
          entry = w16 entry 6 20;
          entry = w16 entry 8 0;
          entry = w16 entry 10 METHOD_STORED;
          entry = w16 entry 12 0;
          entry = w16 entry 14 0;
          entry = w32 entry 16 crc;
          entry = w32 entry 20 size';
          entry = w32 entry 24 size';
          entry = w16 entry 28 (length nameBytes);
          entry = w16 entry 30 0;
          entry = w16 entry 32 0;
          entry = w16 entry 34 0;
          entry = w16 entry 36 0;
          entry = w32 entry 38 0;
          entry = w32 entry 42 localOffset';
          entry = buf_set entry nameBytes 46
      in entry)"

subsection \<open>Appending files\<close>

record AppendFile =
  af_name :: bytes
  af_data :: bytes

text \<open>
  The loop \<open>for (const file of files)\<close> shared by \<open>appendToZip\<close> and
  \<open>appendToZipTail\<close>: the state is \<open>appendOffset\<close>, \<open>newLocalBlocks\<close> and
  \<open>newCdEntries\<close> (name, data, offset).
\<close>

fun append_loop ::
  "AppendFile list \<Rightarrow> nat \<Rightarrow> bytes list \<Rightarrow> (bytes \<times> bytes \<times> nat) list
     \<Rightarrow> nat \<times> bytes list \<times> (bytes \<times> bytes \<times> nat) list" where
  "append_loop [] appendOffset newLocalBlocks newCdEntries =
     (appendOffset, newLocalBlocks, newCdEntries)"
| "append_loop (file # files) appendOffset newLocalBlocks newCdEntries =
     (let localBlock = buildLocalEntry (af_name file) (af_data file)
      in append_loop files (appendOffset + length localBlock)
           (newLocalBlocks @ [localBlock])
           (newCdEntries @ [(af_name file, af_data file, appendOffset)]))"

text \<open>The 22 bytes of the fresh EOCD record, written field by field.\<close>

definition build_eocd :: "nat \<Rightarrow> nat \<Rightarrow> nat \<Rightarrow> bytes" where
  "build_eocd newTotalEntries newCdSize newCdOffset =
     (let newEocd = replicate 22 0;
          newEocd = w32 newEocd 0 SIG_EOCD;
          newEocd = w16 newEocd 4 0;
          newEocd = w16 newEocd 6 0;
          newEocd = w16 newEocd 8 newTotalEntries;
          newEocd = w16 newEocd 10 newTotalEntries;
          newEocd = w32 newEocd 12 newCdSize;
          newEocd = w32 newEocd 16 newCdOffset;
          newEocd = w16 newEocd 20 0
      in newEocd)"

text \<open>
  \<open>concat(...arrays)\<close> called with the arrays spread as its arguments. A call takes as
  many arguments as the engine has room for on its stack and throws a \<open>RangeError\<close>
  beyond; \<open>maxArgs\<close> is that number, a property of the engine that runs the code and a
  parameter here. The calls of the source that have a fixed number of arguments are
  within it.
\<close>

definition concat_call :: "nat \<Rightarrow> bytes list \<Rightarrow> error + bytes" where
  "concat_call maxArgs arrays =
     (if length arrays > maxArgs then Inl CallStackExceeded else Inr (concat arrays))"

text \<open>
  Steps 2 to 4 of \<open>appendToZipTail\<close> (4 to 6 of \<open>appendToZip\<close>): the arrays that follow
  the original archive's prefix \<open>[0, cdOffset)\<close>, in the order in which the last
  statement spreads them, \<open>...newLocalBlocks, ...existingCdRaw, ...newCdBlocks, newEocd\<close>.
\<close>

definition tail_arrays :: "Eocd \<Rightarrow> CdEntry list \<Rightarrow> AppendFile list \<Rightarrow> bytes list" where
  "tail_arrays eocd existingEntries files =
     (case append_loop files (cdOffset eocd) [] [] of
        (appendOffset, newLocalBlocks, newCdEntries) \<Rightarrow>
          let existingCdRaw = map raw existingEntries;
              newCdBlocks = map (\<lambda>(n, d, off). buildCdEntry n d off) newCdEntries;
              newCdSize = sum_list (map length existingCdRaw) + sum_list (map length newCdBlocks);
              newCdOffset = appendOffset;
              newTotalEntries = length existingEntries + length files;
              newEocd = build_eocd newTotalEntries newCdSize newCdOffset
          in newLocalBlocks @ existingCdRaw @ newCdBlocks @ [newEocd])"

text \<open>The tail: \<open>concat(...newLocalBlocks, ...existingCdRaw, ...newCdBlocks, newEocd)\<close>.\<close>

definition build_tail :: "nat \<Rightarrow> Eocd \<Rightarrow> CdEntry list \<Rightarrow> AppendFile list \<Rightarrow> error + bytes" where
  "build_tail maxArgs eocd existingEntries files =
     concat_call maxArgs (tail_arrays eocd existingEntries files)"

text \<open>
  Step 1 of both functions: read the tail, find the EOCD, read and parse the central
  directory. \<open>readRange\<close> is the caller's range reader; it may fail.
\<close>

definition locate_cd ::
  "nat \<Rightarrow> (nat \<Rightarrow> nat \<Rightarrow> error + bytes) \<Rightarrow> error + (Eocd \<times> CdEntry list)" where
  "locate_cd archiveSize readRange =
     (let tailSize = min (65536 + 22) archiveSize in
      case readRange (archiveSize - tailSize) archiveSize of
        Inl e \<Rightarrow> Inl e
      | Inr tailBuf \<Rightarrow>
          (case findEocd tailBuf archiveSize of
             Inl e \<Rightarrow> Inl e
           | Inr eocd \<Rightarrow>
               (case readRange (cdOffset eocd) (cdOffset eocd + cdSize eocd) of
                  Inl e \<Rightarrow> Inl e
                | Inr cd \<Rightarrow>
                    (case parseCentralDirectory cd of
                       Inl e \<Rightarrow> Inl e
                     | Inr existingEntries \<Rightarrow> Inr (eocd, existingEntries)))))"

text \<open>
  The last statement of \<open>appendToZip\<close> is
  \<open>concat(originalData, ...newLocalBlocks, ...existingCdRaw, ...newCdBlocks, newEocd)\<close>.
\<close>

definition appendToZip ::
  "nat \<Rightarrow> nat \<Rightarrow> (nat \<Rightarrow> nat \<Rightarrow> error + bytes) \<Rightarrow> AppendFile list
     \<Rightarrow> (nat \<Rightarrow> error + bytes) \<Rightarrow> error + bytes" where
  "appendToZip maxArgs archiveSize readRange files readPrefix =
     (if length files = 0 then readPrefix archiveSize
      else
        case locate_cd archiveSize readRange of
          Inl e \<Rightarrow> Inl e
        | Inr (eocd, existingEntries) \<Rightarrow>
            (case readPrefix (cdOffset eocd) of
               Inl e \<Rightarrow> Inl e
             | Inr originalData \<Rightarrow>
                 concat_call maxArgs (originalData # tail_arrays eocd existingEntries files)))"

text \<open>The result pair is \<open>(cdOffset, tail)\<close>.\<close>

definition appendToZipTail ::
  "nat \<Rightarrow> nat \<Rightarrow> (nat \<Rightarrow> nat \<Rightarrow> error + bytes) \<Rightarrow> AppendFile list
     \<Rightarrow> (Eocd \<times> CdEntry list) option \<Rightarrow> error + (nat \<times> bytes)" where
  "appendToZipTail maxArgs archiveSize readRange files precomputed =
     (if length files = 0 then Inr (archiveSize, [])
      else
        case (case precomputed of
                Some pre \<Rightarrow> Inr pre
              | None \<Rightarrow> locate_cd archiveSize readRange) of
          Inl e \<Rightarrow> Inl e
        | Inr (eocd, existingEntries) \<Rightarrow>
            (case build_tail maxArgs eocd existingEntries files of
               Inl e \<Rightarrow> Inl e
             | Inr tail \<Rightarrow> Inr (cdOffset eocd, tail)))"

text \<open>
  The readers the source's documentation gives for a buffer held in memory:
  \<open>async (start, end) => buf.subarray(start, end)\<close> and the prefix \<open>[0, end)\<close>.
\<close>

definition readRange_of :: "bytes \<Rightarrow> nat \<Rightarrow> nat \<Rightarrow> error + bytes" where
  "readRange_of buf start end = Inr (subarray buf start end)"

definition readPrefix_of :: "bytes \<Rightarrow> nat \<Rightarrow> error + bytes" where
  "readPrefix_of buf end = Inr (subarray buf 0 end)"

text \<open>
  The rewritten archive of the specification: \<open>originalBytes[0:splitOffset] ++ tail\<close>
  for the pair \<open>appendToZipTail\<close> returns on the archive \<open>A\<close>.
\<close>

definition rewritten :: "nat \<Rightarrow> bytes \<Rightarrow> AppendFile list \<Rightarrow> error + bytes" where
  "rewritten maxArgs A files =
     (case appendToZipTail maxArgs (length A) (readRange_of A) files None of
        Inl e \<Rightarrow> Inl e
      | Inr (splitOffset, tail) \<Rightarrow> Inr (subarray A 0 splitOffset @ tail))"

text \<open>\<open>findEocd\<close> on an archive held in memory, reading its last 65558 bytes.\<close>

definition eocd_of :: "bytes \<Rightarrow> error + Eocd" where
  "eocd_of A =
     findEocd (subarray A (length A - min (65536 + 22) (length A)) (length A)) (length A)"

subsection \<open>Archives, valid archives and the test data of the properties\<close>

text \<open>The bytes the EOCD \<open>e\<close> names as the central directory of the archive \<open>A\<close>.\<close>

definition cd_bytes :: "bytes \<Rightarrow> Eocd \<Rightarrow> bytes" where
  "cd_bytes A e = subarray A (cdOffset e) (cdOffset e + cdSize e)"

text \<open>
  A valid archive without ZIP64: \<open>findEocd\<close> accepts its tail, the central directory the
  EOCD names parses, into as many entries as the EOCD counts, and it starts inside the
  archive.
\<close>

definition valid_archive :: "bytes \<Rightarrow> Eocd \<Rightarrow> CdEntry list \<Rightarrow> bool" where
  "valid_archive A e es \<longleftrightarrow>
     eocd_of A = Inr e \<and> parseCentralDirectory (cd_bytes A e) = Inr es \<and>
     length es = entryCount e \<and> cdOffset e \<le> length A"

text \<open>The EOCD that \<open>findEocd\<close> reads back from the rewritten archive.\<close>

definition reread :: "nat \<Rightarrow> bytes \<Rightarrow> AppendFile list \<Rightarrow> error + Eocd" where
  "reread maxArgs A files =
     (case rewritten maxArgs A files of Inl e \<Rightarrow> Inl e | Inr A' \<Rightarrow> eocd_of A')"

text \<open>\<open>entryEnd\<close> of the central-directory entry that starts at \<open>pos\<close>.\<close>

definition entry_end :: "bytes \<Rightarrow> nat \<Rightarrow> nat" where
  "entry_end cd pos = pos + 46 + rd16 cd (pos + 28) + rd16 cd (pos + 30) + rd16 cd (pos + 32)"

text \<open>
  The sizes of what \<open>buildLocalEntry\<close> and \<open>buildCdEntry\<close> build for a file: a
  30-byte header, the name and the data; a 46-byte header and the name.
\<close>

definition file_local_size :: "AppendFile \<Rightarrow> nat" where
  "file_local_size f = 30 + length (af_name f) + length (af_data f)"

definition file_cd_size :: "AppendFile \<Rightarrow> nat" where
  "file_cd_size f = 46 + length (af_name f)"

text \<open>
  An archive with one stored entry, the file \<open>a\<close> holding the byte \<open>a\<close> (CRC-32
  \<open>0xE8B7BE43\<close>): its central directory, the whole archive, its EOCD and its parsed
  entry.
\<close>

definition one_entry_cd :: bytes where
  "one_entry_cd = [0x50, 0x4b, 0x01, 0x02, 0x14, 0, 0x14, 0, 0, 0, 0, 0, 0, 0, 0, 0,
                   0x43, 0xbe, 0xb7, 0xe8, 1, 0, 0, 0, 1, 0, 0, 0, 1, 0, 0, 0, 0, 0,
                   0, 0, 0, 0, 0, 0, 0, 0, 0, 0, 0, 0, 0x61]"

definition one_entry_zip :: bytes where
  "one_entry_zip = [0x50, 0x4b, 0x03, 0x04, 0x14, 0, 0, 0, 0, 0, 0, 0, 0, 0,
                    0x43, 0xbe, 0xb7, 0xe8, 1, 0, 0, 0, 1, 0, 0, 0, 1, 0, 0, 0, 0x61, 0x61]
                   @ one_entry_cd
                   @ [0x50, 0x4b, 0x05, 0x06, 0, 0, 0, 0, 1, 0, 1, 0, 0x2f, 0, 0, 0, 0x20, 0, 0, 0, 0, 0]"

definition one_entry_eocd :: Eocd where
  "one_entry_eocd = \<lparr> offset = 79, entryCount = 1, cdSize = 47, cdOffset = 32 \<rparr>"

definition one_entry :: CdEntry where
  "one_entry = \<lparr> cd_name = [0x61], cd_method = 0, cd_crc32 = 0xe8b7be43, compressedSize = 1,
                   uncompressedSize = 1, localOffset = 0, cdEntryOffset = 0, cdEntryLength = 47,
                   extra = [], comment = [], raw = one_entry_cd \<rparr>"

definition file_a :: AppendFile where
  "file_a = \<lparr> af_name = [0x61], af_data = [0x61] \<rparr>"

text \<open>
  The archive of \<open>n\<close> stored entries, each the file \<open>a\<close> holding the byte \<open>a\<close>: \<open>n\<close> local
  entries of 32 bytes, the \<open>n\<close> central-directory entries of 47 bytes that point to them,
  and the EOCD; \<open>stored_zip 1\<close> is \<open>one_entry_zip\<close>.
\<close>

definition stored_zip :: "nat \<Rightarrow> bytes" where
  "stored_zip n =
     concat (replicate n (buildLocalEntry [0x61] [0x61]))
     @ concat (map (\<lambda>k. buildCdEntry [0x61] [0x61] (32 * k)) [0..<n])
     @ build_eocd n (47 * n) (32 * n)"

definition stored_eocd :: "nat \<Rightarrow> Eocd" where
  "stored_eocd n = \<lparr> offset = int (79 * n), entryCount = n, cdSize = 47 * n, cdOffset = 32 * n \<rparr>"

definition empty_eocd :: Eocd where
  "empty_eocd = \<lparr> offset = 0, entryCount = 0, cdSize = 0, cdOffset = 0 \<rparr>"

section \<open>Tunnel session (WispProxy.ts)\<close>

text \<open>
  A host name is a string; the pattern \<open>\d\<close> of a JavaScript regular expression without
  the \<open>u\<close> flag matches the ten ASCII digits, and \<open>^\<close> and \<open>$\<close> without the \<open>m\<close>
  flag match the two ends of the input only.
\<close>

definition is_digit :: "char \<Rightarrow> bool" where
  "is_digit c \<longleftrightarrow> c \<in> set ''0123456789''"

text \<open>The four patterns of \<open>ALLOWED_HOSTS\<close>, in the source's order.\<close>

definition re_auth :: "string \<Rightarrow> bool" where
  "re_auth h \<longleftrightarrow> h = ''auth.itunes.apple.com''"

definition re_buy :: "string \<Rightarrow> bool" where
  "re_buy h \<longleftrightarrow> h = ''buy.itunes.apple.com''"

definition re_init :: "string \<Rightarrow> bool" where
  "re_init h \<longleftrightarrow> h = ''init.itunes.apple.com''"

text \<open>
  \<open>/^p\d+-buy\.itunes\.apple\.com$/\<close>: the letter \<open>p\<close>, a non-empty run of digits (the
  run is maximal, since the next character must be \<open>-\<close>), then the fixed suffix.
\<close>

definition re_pod :: "string \<Rightarrow> bool" where
  "re_pod h \<longleftrightarrow>
     (case h of
        [] \<Rightarrow> False
      | c # rest \<Rightarrow>
          c = CHR ''p'' \<and> takeWhile is_digit rest \<noteq> [] \<and>
          dropWhile is_digit rest = ''-buy.itunes.apple.com'')"

definition ALLOWED_HOSTS :: "(string \<Rightarrow> bool) list" where
  "ALLOWED_HOSTS = [re_auth, re_buy, re_init, re_pod]"

definition TYPE_CONNECT :: byte where "TYPE_CONNECT = 0x01"

definition TYPE_DATA :: byte where "TYPE_DATA = 0x02"

definition TYPE_CONTINUE :: byte where "TYPE_CONTINUE = 0x03"

definition TYPE_CLOSE :: byte where "TYPE_CLOSE = 0x04"

definition CLOSE_REASON_VOLUNTARY :: byte where "CLOSE_REASON_VOLUNTARY = 0x01"

definition CLOSE_REASON_NETWORK_ERROR :: byte where "CLOSE_REASON_NETWORK_ERROR = 0x02"

definition CLOSE_REASON_INVALID_INFO :: byte where "CLOSE_REASON_INVALID_INFO = 0x41"

text \<open>
  What a handler does to the outside: a frame sent on the WebSocket, a TCP socket opened
  by \<open>connect\<close>, bytes written to the socket of a stream, the socket of a stream closed.
\<close>

datatype effect =
    Send bytes
  | OpenSocket string nat
  | WriteSocket nat bytes
  | CloseSocket nat

text \<open>
  The session: \<open>streams\<close> maps a stream id to the remote end of its socket (the source
  keeps the socket's writer there), \<open>ws\<close> tells whether \<open>this.ws\<close> is set.
\<close>

record session =
  streams :: "nat \<rightharpoonup> (string \<times> nat)"
  ws :: bool

definition new_session :: session where
  "new_session = \<lparr> streams = Map.empty, ws = False \<rparr>"

text \<open>\<open>DataView.setUint32(1, v, true)\<close>: four bytes, least significant first.\<close>

definition le32 :: "nat \<Rightarrow> bytes" where
  "le32 v = [of_nat (v mod 256), of_nat ((v div 256) mod 256),
             of_nat ((v div 65536) mod 256), of_nat ((v div 16777216) mod 256)]"

definition data_frame :: "nat \<Rightarrow> bytes \<Rightarrow> bytes" where
  "data_frame streamId data' = TYPE_DATA # le32 streamId @ data'"

definition continue_frame :: "nat \<Rightarrow> nat \<Rightarrow> bytes" where
  "continue_frame streamId bufferRemaining = TYPE_CONTINUE # le32 streamId @ le32 bufferRemaining"

definition close_frame :: "nat \<Rightarrow> byte \<Rightarrow> bytes" where
  "close_frame streamId reason = TYPE_CLOSE # le32 streamId @ [reason]"

text \<open>The frame builders send only \<open>if (this.ws)\<close>.\<close>

definition sendData :: "session \<Rightarrow> nat \<Rightarrow> bytes \<Rightarrow> effect list" where
  "sendData s streamId data' = (if ws s then [Send (data_frame streamId data')] else [])"

definition sendContinue :: "session \<Rightarrow> nat \<Rightarrow> nat \<Rightarrow> effect list" where
  "sendContinue s streamId bufferRemaining =
     (if ws s then [Send (continue_frame streamId bufferRemaining)] else [])"

definition sendClose :: "session \<Rightarrow> nat \<Rightarrow> byte \<Rightarrow> effect list" where
  "sendClose s streamId reason = (if ws s then [Send (close_frame streamId reason)] else [])"

text \<open>
  \<open>fetch\<close> for a request that asks for a WebSocket upgrade: the server end is kept in
  \<open>this.ws\<close> and the initial CONTINUE for stream 0 is sent.
\<close>

definition fetch_upgrade :: "session \<Rightarrow> session \<times> effect list" where
  "fetch_upgrade s = (let s' = s\<lparr> ws := True \<rparr> in (s', sendContinue s' 0 (128 * 1024)))"

text \<open>
  \<open>handleConnect\<close>. \<open>decode\<close> is the platform's \<open>TextDecoder.decode\<close>; \<open>connect_throws\<close>
  tells whether the platform's \<open>connect\<close> throws for this call. Piping the socket back
  to the WebSocket happens in the background, after the handler has returned.
\<close>

definition handleConnect ::
  "(bytes \<Rightarrow> string) \<Rightarrow> bool \<Rightarrow> session \<Rightarrow> nat \<Rightarrow> bytes \<Rightarrow> session \<times> effect list" where
  "handleConnect decode connect_throws s streamId payload =
     (if length payload < 4 then (s, sendClose s streamId CLOSE_REASON_INVALID_INFO)
      else
        let streamType = payload ! 0;
            port = unat (payload ! 1) + 256 * unat (payload ! 2);
            hostname = decode (drop 3 payload)
        in if streamType \<noteq> 1 \<or> port \<noteq> 443 \<or> \<not> list_ex (\<lambda>r. r hostname) ALLOWED_HOSTS
           then (s, sendClose s streamId CLOSE_REASON_INVALID_INFO)
           else if connect_throws then (s, sendClose s streamId CLOSE_REASON_NETWORK_ERROR)
           else
             let s' = s\<lparr> streams := (streams s)(streamId \<mapsto> (hostname, port)) \<rparr>
             in (s', OpenSocket hostname port # sendContinue s' streamId (128 * 1024)))"

text \<open>\<open>handleData\<close>; \<open>write_throws\<close> tells whether the write to the socket fails.\<close>

definition handleData :: "bool \<Rightarrow> session \<Rightarrow> nat \<Rightarrow> bytes \<Rightarrow> session \<times> effect list" where
  "handleData write_throws s streamId payload =
     (case streams s streamId of
        None \<Rightarrow> (s, [])
      | Some _ \<Rightarrow>
          if write_throws
          then (s\<lparr> streams := (streams s)(streamId := None) \<rparr>,
                sendClose s streamId CLOSE_REASON_NETWORK_ERROR)
          else (s, [WriteSocket streamId payload]))"

definition handleClose :: "session \<Rightarrow> nat \<Rightarrow> session \<times> effect list" where
  "handleClose s streamId =
     (case streams s streamId of
        None \<Rightarrow> (s, [])
      | Some _ \<Rightarrow> (s\<lparr> streams := (streams s)(streamId := None) \<rparr>, [CloseSocket streamId]))"

text \<open>
  \<open>webSocketMessage\<close> for a binary message (a text message is ignored): frames shorter
  than five bytes and unknown types are dropped.
\<close>

definition webSocketMessage ::
  "(bytes \<Rightarrow> string) \<Rightarrow> bool \<Rightarrow> bool \<Rightarrow> session \<Rightarrow> bytes \<Rightarrow> session \<times> effect list" where
  "webSocketMessage decode connect_throws write_throws s buf =
     (if length buf < 5 then (s, [])
      else
        let type = buf ! 0;
            streamId = rd32 buf 1;
            payload = drop 5 buf
        in if type = TYPE_CONNECT then handleConnect decode connect_throws s streamId payload
           else if type = TYPE_DATA then handleData write_throws s streamId payload
           else if type = TYPE_CLOSE then handleClose s streamId
           else (s, []))"


fun split_on :: "char \<Rightarrow> string \<Rightarrow> string list" where
  "split_on sep [] = [[]]"
| "split_on sep (c # cs) =
     (if c = sep then [] # split_on sep cs
      else case split_on sep cs of
             [] \<Rightarrow> [[c]]
           | p # ps \<Rightarrow> (c # p) # ps)"

definition is_dotted_quad :: "string \<Rightarrow> bool" where
  "is_dotted_quad h \<longleftrightarrow>
     (let ps = split_on CHR ''.'' h
      in length ps = 4 \<and> list_all (\<lambda>p. p \<noteq> [] \<and> list_all is_digit p) ps)"



text \<open>ASCII bytes as a string, the decoder of the examples.\<close>

definition ascii :: "bytes \<Rightarrow> string" where
  "ascii bs = map (\<lambda>b. char_of (unat b)) bs"

text \<open>CONNECT payloads: TCP to \<open>auth.itunes.apple.com:443\<close> and to \<open>evil.com:443\<close>.\<close>

definition connect_auth :: bytes where
  "connect_auth = [1, 0xbb, 0x01, 0x61, 0x75, 0x74, 0x68, 0x2e, 0x69, 0x74, 0x75, 0x6e, 0x65,
                   0x73, 0x2e, 0x61, 0x70, 0x70, 0x6c, 0x65, 0x2e, 0x63, 0x6f, 0x6d]"


text \<open>
  The session after the upgrade, and two CONNECT frames on stream 1: one for
  \<open>evil.com:443\<close>, one for \<open>auth.itunes.apple.com:443\<close>.
\<close>

definition open_session :: session where
  "open_session = fst (fetch_upgrade new_session)"


definition auth_frame :: bytes where
  "auth_frame = [0x01, 1, 0, 0, 0] @ connect_auth"

section \<open>Proof of work (middleware/auth.ts)\<close>

definition POW_CHALLENGE_TTL :: int where "POW_CHALLENGE_TTL = 60"

definition MAX_USED_CHALLENGES :: nat where "MAX_USED_CHALLENGES = 10000"

text \<open>
  What \<open>verifyPow\<close> takes from the platform: the HMAC verification of a payload against a
  base64url signature under the process key (\<open>None\<close> when \<open>atob\<close> throws on the
  signature), \<open>parseInt(_, 10)\<close> (\<open>None\<close> for \<open>NaN\<close>), SHA-256 of a string, and the
  environment variable \<open>POW_DIFFICULTY\<close>.
\<close>

record platform =
  hmac_verify :: "string \<Rightarrow> string \<Rightarrow> bool option"
  parseInt10 :: "string \<Rightarrow> int option"
  sha256 :: "string \<Rightarrow> bytes"
  env_POW_DIFFICULTY :: "string option"

text \<open>\<open>String.prototype.indexOf\<close> and \<open>lastIndexOf\<close> for one character: \<open>-1\<close> when absent.\<close>

definition indexOf :: "char \<Rightarrow> string \<Rightarrow> int" where
  "indexOf c s = (if c \<in> set s then int (length (takeWhile (\<lambda>x. x \<noteq> c) s)) else - 1)"

definition lastIndexOf :: "char \<Rightarrow> string \<Rightarrow> int" where
  "lastIndexOf c s =
     (if c \<in> set s then int (length s) - 1 - int (length (takeWhile (\<lambda>x. x \<noteq> c) (rev s)))
      else - 1)"

text \<open>
  \<open>hasLeadingZeroBits\<close>: the loop over the bytes of the hash with \<open>remaining\<close> bits still
  to check.
\<close>

fun hasLeadingZeroBits :: "bytes \<Rightarrow> int \<Rightarrow> bool" where
  "hasLeadingZeroBits [] remaining = True"
| "hasLeadingZeroBits (h # hs) remaining =
     (if remaining > 0 then
        if remaining \<ge> 8 then
          if h \<noteq> 0 then False else hasLeadingZeroBits hs (remaining - 8)
        else
          let mask = push_bit (nat (8 - remaining)) (0xff :: 32 word)
          in if ucast h AND mask \<noteq> 0 then False else True
      else True)"

text \<open>
  \<open>Math.min(24, Math.max(16, parseInt(env.POW_DIFFICULTY ?? '18', 10) || 18))\<close>: \<open>NaN\<close>
  and \<open>0\<close> are falsy.
\<close>

definition difficulty :: "platform \<Rightarrow> int" where
  "difficulty P =
     (let parsed = parseInt10 P (case env_POW_DIFFICULTY P of None \<Rightarrow> ''18'' | Some v \<Rightarrow> v);
          d = (case parsed of None \<Rightarrow> 18 | Some v \<Rightarrow> if v = 0 then 18 else v)
      in min 24 (max 16 d))"

text \<open>
  \<open>verifyPow\<close>. The state is the module-level map \<open>usedChallenges\<close>; \<open>now\<close> and \<open>now2\<close>
  are the two readings of the clock, in seconds. A comparison with \<open>NaN\<close> is false, so
  a timestamp that does not parse passes the freshness check.
\<close>

definition verifyPow ::
  "platform \<Rightarrow> (string \<rightharpoonup> int) \<Rightarrow> string \<Rightarrow> string \<Rightarrow> int \<Rightarrow> int
     \<Rightarrow> (error + bool) \<times> (string \<rightharpoonup> int)" where
  "verifyPow P usedChallenges challenge nonce now now2 =
     (let lastColon = lastIndexOf CHR '':'' challenge in
      if lastColon < 0 then (Inr False, usedChallenges)
      else
        let payload = take (nat lastColon) challenge;
            sigB64 = drop (nat lastColon + 1) challenge
        in if usedChallenges challenge \<noteq> None then (Inr False, usedChallenges)
           else
             case hmac_verify P sigB64 payload of
               None \<Rightarrow> (Inl InvalidBase64, usedChallenges)
             | Some valid \<Rightarrow>
                 if \<not> valid then (Inr False, usedChallenges)
                 else
                   let firstColon = indexOf CHR '':'' payload in
                   if firstColon < 0 then (Inr False, usedChallenges)
                   else
                     let timestamp = parseInt10 P (take (nat firstColon) payload) in
                     if (case timestamp of None \<Rightarrow> False
                                          | Some ts \<Rightarrow> now - ts > POW_CHALLENGE_TTL)
                     then (Inr False, usedChallenges)
                     else
                       let hash = sha256 P (challenge @ nonce) in
                       if \<not> hasLeadingZeroBits hash (difficulty P)
                       then (Inr False, usedChallenges)
                       else
                         let used1 = usedChallenges(challenge \<mapsto> now2);
                             used2 =
                               (if card (dom used1) > MAX_USED_CHALLENGES
                                then (\<lambda>c. case used1 c of
                                             None \<Rightarrow> None
                                           | Some ts \<Rightarrow>
                                               if now2 - ts > POW_CHALLENGE_TTL * 2 then None
                                               else Some ts)
                                else used1)
                         in (Inr True, used2))"

text \<open>The timestamp \<open>verifyPow\<close> reads from a challenge, when the challenge has one.\<close>

definition challenge_timestamp :: "platform \<Rightarrow> string \<Rightarrow> int option" where
  "challenge_timestamp P challenge =
     (let payload = take (nat (lastIndexOf CHR '':'' challenge)) challenge
      in parseInt10 P (take (nat (indexOf CHR '':'' payload)) payload))"

text \<open>
  Later calls of \<open>verifyPow\<close>, each with its challenge, nonce and two clock readings, and
  the map they leave. The clock does not run backwards: \<open>clock_from t calls\<close> holds when
  the readings, taken in order, never decrease, starting at \<open>t\<close>.
\<close>

fun verify_all :: "platform \<Rightarrow> (string \<rightharpoonup> int) \<Rightarrow> (string \<times> string \<times> int \<times> int) list
    \<Rightarrow> (string \<rightharpoonup> int)" where
  "verify_all P used [] = used"
| "verify_all P used ((c, n, now, now2) # calls) =
     verify_all P (snd (verifyPow P used c n now now2)) calls"

fun clock_from :: "int \<Rightarrow> (string \<times> string \<times> int \<times> int) list \<Rightarrow> bool" where
  "clock_from t [] = True"
| "clock_from t ((c, n, now, now2) # calls) = (t \<le> now \<and> now \<le> now2 \<and> clock_from now2 calls)"

fun last_reading :: "int \<Rightarrow> (string \<times> string \<times> int \<times> int) list \<Rightarrow> int" where
  "last_reading t [] = t"
| "last_reading t ((c, n, now, now2) # calls) = last_reading now2 calls"

text \<open>
  A platform for the examples: the signature \<open>sig\<close> verifies, the timestamp \<open>100\<close>
  parses, every hash is 32 zero bytes. The challenge \<open>100:u:sig\<close> is issued at second 100.
\<close>

definition test_platform :: platform where
  "test_platform = \<lparr> hmac_verify = (\<lambda>s p. Some (s = ''sig'')),
                      parseInt10 = (\<lambda>s. if s = ''100'' then Some 100 else None),
                      sha256 = (\<lambda>s. replicate 32 0),
                      env_POW_DIFFICULTY = None \<rparr>"

definition test_challenge :: string where
  "test_challenge = ''100:u:sig''"

section \<open>Download engine: streaming into multipart upload parts (DownloadManager.ts)\<close>

definition MAX_DOWNLOAD_SIZE :: nat where "MAX_DOWNLOAD_SIZE = 8 * 1024 * 1024 * 1024"

definition UPLOAD_PART_SIZE :: nat where "UPLOAD_PART_SIZE = 25 * 1024 * 1024"

text \<open>
  \<open>mergeChunks\<close>: the loop over the chunks. \<open>merged\<close> holds the bytes written so far
  (\<open>pos\<close> is its length); the rest of the zero-filled \<open>Uint8Array(size)\<close> is appended
  when the loop ends.
\<close>

fun mergeChunks_loop :: "nat \<Rightarrow> bytes list \<Rightarrow> bytes \<Rightarrow> bytes list \<Rightarrow> bool \<Rightarrow> bytes \<times> bytes list" where
  "mergeChunks_loop size' [] merged remaining filled =
     (merged @ replicate (size' - length merged) 0, remaining)"
| "mergeChunks_loop size' (chunk # chunks) merged remaining filled =
     (if filled then mergeChunks_loop size' chunks merged (remaining @ [chunk]) filled
      else
        let need = size' - length merged in
        if length chunk \<le> need
        then mergeChunks_loop size' chunks (merged @ chunk) remaining
               (length merged + length chunk = size')
        else mergeChunks_loop size' chunks (merged @ take need chunk)
               (remaining @ [drop need chunk]) True)"

definition mergeChunks :: "bytes list \<Rightarrow> nat \<Rightarrow> bytes \<times> bytes list" where
  "mergeChunks chunks size' = mergeChunks_loop size' chunks [] [] False"

text \<open>
  \<open>mergeAll\<close>, called with the exact total size of the chunks: the chunks laid out one
  after the other in a zero-filled array of that size.
\<close>

definition mergeAll :: "bytes list \<Rightarrow> nat \<Rightarrow> bytes" where
  "mergeAll chunks totalSize =
     take totalSize (concat chunks) @ replicate (totalSize - length (concat chunks)) 0"

text \<open>
  The local state of \<open>streamToR2\<close>. \<open>parts\<close> collects what \<open>uploadPart\<close> returned: the
  part number and, for the properties, the bytes of the part. \<open>pendingUpload\<close> is the
  part whose upload runs in the background; its result is pushed when it is awaited,
  and nothing else is uploaded before that.
\<close>

record upload_state =
  parts :: "(nat \<times> bytes) list"
  partNum :: nat
  downloaded :: nat
  chunks :: "bytes list"
  bufferSize :: nat
  pendingUpload :: "(nat \<times> bytes) option"

definition initial_upload :: upload_state where
  "initial_upload = \<lparr> parts = [], partNum = 1, downloaded = 0, chunks = [], bufferSize = 0,
                       pendingUpload = None \<rparr>"

text \<open>\<open>if (pendingUpload) await pendingUpload; pendingUpload = null\<close>\<close>

definition await_pending :: "upload_state \<Rightarrow> upload_state" where
  "await_pending st =
     (case pendingUpload st of
        None \<Rightarrow> st
      | Some p \<Rightarrow> st\<lparr> parts := parts st @ [p], pendingUpload := None \<rparr>)"

text \<open>
  One pass of the body the three upload loops share: cut a part of \<open>partSize\<close> bytes
  off the buffer and upload it under the next part number.
\<close>

definition upload_one :: "nat \<Rightarrow> upload_state \<Rightarrow> upload_state" where
  "upload_one partSize st =
     (case mergeChunks (chunks st) partSize of
        (merged, remaining) \<Rightarrow>
          st\<lparr> chunks := remaining,
               bufferSize := bufferSize st - partSize,
               parts := parts st @ [(partNum st, merged)],
               partNum := partNum st + 1 \<rparr>)"

text \<open>
  \<open>while (bufferSize >= limit) { ... }\<close> with \<open>limit\<close> twice the part size (in
  \<open>flushBuffer\<close>) or the part size (after the stream has ended). The part size is a
  positive constant of the source; the loop is written for any part size and stops at
  once for the part size 0.
\<close>

function upload_while :: "nat \<Rightarrow> nat \<Rightarrow> upload_state \<Rightarrow> upload_state" where
  "upload_while partSize limit st =
     (if 0 < partSize \<and> partSize \<le> limit \<and> bufferSize st \<ge> limit
      then upload_while partSize limit (upload_one partSize st)
      else st)"
  by pat_completeness auto

termination
  by (relation "measure (\<lambda>(partSize, limit, st). bufferSize st)")
     (auto simp: upload_one_def split: prod.splits)

declare upload_while.simps [simp del]

definition flushBuffer :: "nat \<Rightarrow> upload_state \<Rightarrow> upload_state" where
  "flushBuffer partSize st =
     (let st = await_pending st;
          st = upload_while partSize (partSize * 2) st
      in if bufferSize st \<ge> partSize then
           (case mergeChunks (chunks st) partSize of
              (merged, remaining) \<Rightarrow>
                st\<lparr> chunks := remaining,
                     bufferSize := bufferSize st - partSize,
                     pendingUpload := Some (partNum st, merged),
                     partNum := partNum st + 1 \<rparr>)
         else st)"

text \<open>
  What the reader and the timers deliver to the \<open>while (true)\<close> loop, one event per
  pass: a chunk of the body, the cancellation signal found set at the top of the
  loop, or the stall timer winning the race. The end of the list is \<open>done\<close>.
\<close>

datatype read_event = Chunk bytes | Aborted | Stalled

text \<open>
  The read loop; an exception leaves it with the error and the state reached. The
  throttled progress report writes the task record only and is left out.
\<close>

fun read_loop :: "nat \<Rightarrow> upload_state \<Rightarrow> read_event list \<Rightarrow> (error \<times> upload_state) + upload_state" where
  "read_loop partSize st [] = Inr st"
| "read_loop partSize st (Aborted # events) = Inl (AbortError, st)"
| "read_loop partSize st (Stalled # events) = Inl (CdnStall, st)"
| "read_loop partSize st (Chunk v # events) =
     (let st = st\<lparr> downloaded := downloaded st + length v \<rparr> in
      if downloaded st > MAX_DOWNLOAD_SIZE then Inl (FileTooLarge, st)
      else
        let st = st\<lparr> chunks := chunks st @ [v], bufferSize := bufferSize st + length v \<rparr>;
            st = (if bufferSize st \<ge> partSize then flushBuffer partSize st else st)
        in read_loop partSize st events)"

text \<open>
  After the loop: drain the pending upload, upload the remaining full parts, then the
  final partial part.
\<close>

definition finish_upload :: "nat \<Rightarrow> upload_state \<Rightarrow> upload_state" where
  "finish_upload partSize st =
     (let st = await_pending st;
          st = upload_while partSize partSize st
      in if bufferSize st > 0
         then st\<lparr> parts := parts st @ [(partNum st, mergeAll (chunks st) (bufferSize st))],
                  partNum := partNum st + 1 \<rparr>
         else st)"

text \<open>
  The outcome of \<open>streamToR2\<close>: every part that was uploaded, in the order of the
  uploads; the list passed to \<open>upload.complete\<close> (none when the upload was aborted);
  the error rethrown, if any.
\<close>

record upload_result =
  uploaded :: "(nat \<times> bytes) list"
  completed :: "(nat \<times> bytes) list option"
  failure :: "error option"

text \<open>
  \<open>streamToR2\<close> for a part size. \<open>parts.sort((a, b) => a.partNumber - b.partNumber)\<close> is
  a stable sort on the part number. In the \<open>catch\<close> branch the pending upload is
  awaited before the multipart upload is aborted.
\<close>

definition streamToR2_with :: "nat \<Rightarrow> read_event list \<Rightarrow> upload_result" where
  "streamToR2_with partSize events =
     (case read_loop partSize initial_upload events of
        Inl (err, st) \<Rightarrow>
          \<lparr> uploaded = parts (await_pending st), completed = None, failure = Some err \<rparr>
      | Inr st \<Rightarrow>
          let st = finish_upload partSize st
          in \<lparr> uploaded = parts st, completed = Some (sort_key fst (parts st)),
               failure = None \<rparr>)"

definition streamToR2 :: "read_event list \<Rightarrow> upload_result" where
  "streamToR2 events = streamToR2_with UPLOAD_PART_SIZE events"

text \<open>The bytes of the body that the events deliver before the stream ends or fails.\<close>

fun body_bytes :: "read_event list \<Rightarrow> bytes" where
  "body_bytes [] = []"
| "body_bytes (Chunk v # events) = v @ body_bytes events"
| "body_bytes (e # events) = []"

text \<open>
  Every part the state knows of, the pending one last; and the invariant of the upload
  for a part size \<open>P\<close> and the body bytes \<open>body\<close> read so far: the buffer size is the size
  of the buffered chunks, the parts are numbered from 1 without a gap, each holds \<open>P\<close>
  bytes, and the parts followed by the buffer are the body.
\<close>

definition all_parts :: "upload_state \<Rightarrow> (nat \<times> bytes) list" where
  "all_parts st = parts st @ (case pendingUpload st of None \<Rightarrow> [] | Some p \<Rightarrow> [p])"

definition upload_inv :: "nat \<Rightarrow> bytes \<Rightarrow> upload_state \<Rightarrow> bool" where
  "upload_inv P body st \<longleftrightarrow>
     bufferSize st = length (concat (chunks st)) \<and>
     map fst (all_parts st) = [1..<partNum st] \<and> 1 \<le> partNum st \<and>
     list_all (\<lambda>p. length (snd p) = P) (all_parts st) \<and>
     concat (map snd (all_parts st)) @ concat (chunks st) = body"

text \<open>A body of 25 MiB and three bytes, delivered in two chunks.\<close>

definition two_part_body :: "read_event list" where
  "two_part_body = [Chunk (replicate 26214400 7), Chunk [1, 2, 3]]"

section \<open>Task store (DownloadManager.ts)\<close>

subsection \<open>Data model\<close>

datatype status = Pending | Downloading | Paused | Injecting | Completed | Failed

text \<open>
  Modelled from the spec: the type declarations of \<open>types.ts\<close> (\<open>Software\<close>, \<open>Sinf\<close>,
  \<open>DownloadTask\<close>) are not among the source files. A software descriptor has a numeric
  track id, a bundle identifier, a name, a version and display fields that the store
  treats as opaque; a SINF record has an index and a base64 blob; a download task has
  the fields the store reads and writes. \<open>createdAt\<close> is kept as the time it denotes, in
  milliseconds; \<open>filePath\<close> is the optional field that \<open>SanitizedTask\<close> omits.
\<close>

record Software =
  sw_id :: int
  bundleID :: string
  sw_name :: string
  version :: string
  sw_display :: "(string \<times> string) list"

record Sinf =
  sinf_id :: int
  sinf :: string

record DownloadTask =
  task_id :: string
  software :: Software
  accountHash :: string
  downloadURL :: string
  sinfs :: "Sinf list"
  iTunesMetadata :: "string option"
  status :: status
  progress :: nat
  speed :: string
  task_error :: "string option"
  createdAt :: int
  filePath :: "string option"

record CreateTaskParams =
  p_software :: Software
  p_accountHash :: string
  p_downloadURL :: string
  p_sinfs :: "Sinf list"
  p_iTunesMetadata :: "string option"

definition MIN_ACCOUNT_HASH_LENGTH :: nat where "MIN_ACCOUNT_HASH_LENGTH = 8"

text \<open>
  The state of the \<open>DownloadManager\<close>: the three families of storage keys
  (\<open>task:<id>\<close>, \<open>r2key:<id>\<close>, \<open>accounts:<hash>\<close>) as association lists keyed by the
  id or the hash, the in-memory map of abort controllers as the set of its keys, and
  the blob store as the key and size of each object. A stored task is the record
  itself; the source stores its JSON text.
\<close>

record dm_state =
  tasks :: "(string \<times> DownloadTask) list"
  r2keys :: "(string \<times> string) list"
  accounts :: "(string \<times> string list) list"
  abortControllers :: "string set"
  bucket :: "(string \<times> nat) list"

definition empty_store :: dm_state where
  "empty_store = \<lparr> tasks = [], r2keys = [], accounts = [], abortControllers = {}, bucket = [] \<rparr>"

subsection \<open>Helpers\<close>

text \<open>
  \<open>/\.apple\.com$/i\<close>: the suffix \<open>.apple.com\<close>, letters in either case (without the
  \<open>u\<close> flag only ASCII letters fold onto ASCII letters).
\<close>

definition ci_char :: "char \<Rightarrow> char \<Rightarrow> bool" where
  "ci_char c p \<longleftrightarrow>
     c = p \<or> (c, p) \<in> set (zip ''ABCDEFGHIJKLMNOPQRSTUVWXYZ'' ''abcdefghijklmnopqrstuvwxyz'')"

definition ALLOWED_DOWNLOAD_RE :: "string \<Rightarrow> bool" where
  "ALLOWED_DOWNLOAD_RE h \<longleftrightarrow>
     length ''.apple.com'' \<le> length h \<and>
     list_all2 ci_char (drop (length h - length ''.apple.com'') h) ''.apple.com''"

text \<open>
  \<open>validateDownloadURL\<close>; \<open>parseURL\<close> is the platform's \<open>new URL(url)\<close>, giving the
  protocol and the host name, or nothing when it throws.
\<close>

definition validateDownloadURL ::
  "(string \<Rightarrow> (string \<times> string) option) \<Rightarrow> string \<Rightarrow> error + unit" where
  "validateDownloadURL parseURL url =
     (case parseURL url of
        None \<Rightarrow> Inl InvalidDownloadURL
      | Some (protocol, hostname) \<Rightarrow>
          if protocol \<noteq> ''https:'' then Inl NotHttps
          else if \<not> ALLOWED_DOWNLOAD_RE hostname then Inl NotAppleHost
          else if is_dotted_quad hostname then Inl IpAddressHost
          else Inr ())"

text \<open>
  A task as the object it is at run time, property by property; a property whose value
  is \<open>undefined\<close> is left out, as serialisation does.
\<close>

datatype json = JNull | JBool bool | JNum int | JStr string | JArr "json list"
  | JObj "(string \<times> json) list"

definition status_name :: "status \<Rightarrow> string" where
  "status_name st =
     (case st of Pending \<Rightarrow> ''pending'' | Downloading \<Rightarrow> ''downloading'' | Paused \<Rightarrow> ''paused''
      | Injecting \<Rightarrow> ''injecting'' | Completed \<Rightarrow> ''completed'' | Failed \<Rightarrow> ''failed'')"

definition software_json :: "Software \<Rightarrow> json" where
  "software_json sw =
     JObj ([(''id'', JNum (sw_id sw)), (''bundleID'', JStr (bundleID sw)),
            (''name'', JStr (sw_name sw)), (''version'', JStr (version sw))]
           @ map (\<lambda>(k, v). (k, JStr v)) (sw_display sw))"

definition optional_field :: "string \<Rightarrow> string option \<Rightarrow> (string \<times> json) list" where
  "optional_field k v = (case v of None \<Rightarrow> [] | Some x \<Rightarrow> [(k, JStr x)])"

definition task_fields :: "DownloadTask \<Rightarrow> (string \<times> json) list" where
  "task_fields t =
     [(''id'', JStr (task_id t)), (''software'', software_json (software t)),
      (''accountHash'', JStr (accountHash t)), (''downloadURL'', JStr (downloadURL t)),
      (''sinfs'', JArr (map (\<lambda>s. JObj [(''id'', JNum (sinf_id s)), (''sinf'', JStr (sinf s))])
                          (sinfs t)))]
     @ optional_field ''iTunesMetadata'' (iTunesMetadata t)
     @ [(''status'', JStr (status_name (status t))), (''progress'', JNum (int (progress t))),
        (''speed'', JStr (speed t))]
     @ optional_field ''error'' (task_error t)
     @ [(''createdAt'', JNum (createdAt t))]
     @ optional_field ''filePath'' (filePath t)"

text \<open>
  \<open>sanitize\<close>: the four properties are taken out by the destructuring, the rest is
  spread into the result, followed by \<open>hasFile\<close> and \<open>fileSize\<close>.
\<close>

definition sanitize :: "DownloadTask \<Rightarrow> bool \<Rightarrow> nat option \<Rightarrow> (string \<times> json) list" where
  "sanitize task hasFile fileSize =
     (let safe = filter (\<lambda>(k, v). k \<notin> {''downloadURL'', ''sinfs'', ''iTunesMetadata'', ''filePath''})
                   (task_fields task)
      in safe @ [(''hasFile'', JBool hasFile)]
         @ (case fileSize of None \<Rightarrow> [] | Some n \<Rightarrow> [(''fileSize'', JNum (int n))]))"

subsection \<open>Storage helpers\<close>

definition saveTask :: "dm_state \<Rightarrow> DownloadTask \<Rightarrow> dm_state" where
  "saveTask s task = s\<lparr> tasks := AList.update (task_id task) task (tasks s) \<rparr>"

definition loadTask :: "dm_state \<Rightarrow> string \<Rightarrow> DownloadTask option" where
  "loadTask s i = map_of (tasks s) i"

text \<open>\<open>(await this.ctx.storage.get(`accounts:${hash}`)) ?? []\<close>\<close>

definition account_index :: "dm_state \<Rightarrow> string \<Rightarrow> string list" where
  "account_index s h = (case map_of (accounts s) h of None \<Rightarrow> [] | Some ids \<Rightarrow> ids)"

definition addToAccountIndex :: "dm_state \<Rightarrow> string \<Rightarrow> string \<Rightarrow> dm_state" where
  "addToAccountIndex s h taskId =
     (let existing = account_index s h
      in if taskId \<notin> set existing
         then s\<lparr> accounts := AList.update h (existing @ [taskId]) (accounts s) \<rparr>
         else s)"

definition removeFromAccountIndex :: "dm_state \<Rightarrow> string \<Rightarrow> string \<Rightarrow> dm_state" where
  "removeFromAccountIndex s h taskId =
     (let existing = account_index s h
      in s\<lparr> accounts := AList.update h (filter (\<lambda>i. i \<noteq> taskId) existing) (accounts s) \<rparr>)"

text \<open>A key read from storage is used when it is truthy: present and not empty.\<close>

definition truthy :: "string option \<Rightarrow> bool" where
  "truthy k \<longleftrightarrow> (case k of None \<Rightarrow> False | Some x \<Rightarrow> x \<noteq> [])"

text \<open>\<open>IPA_BUCKET.head(key)\<close>: the size of the object, when there is one.\<close>

definition head_object :: "dm_state \<Rightarrow> string \<Rightarrow> nat option" where
  "head_object s k = map_of (bucket s) k"

text \<open>\<open>r2key ? await this.env.IPA_BUCKET.head(r2key) : null\<close>\<close>

definition head_of :: "dm_state \<Rightarrow> string option \<Rightarrow> nat option" where
  "head_of s r2key = (if truthy r2key then head_object s (the r2key) else None)"

text \<open>\<open>IPA_BUCKET.delete(keys)\<close>\<close>

definition bucket_delete :: "string list \<Rightarrow> (string \<times> nat) list \<Rightarrow> (string \<times> nat) list" where
  "bucket_delete ks b = filter (\<lambda>(k, n). k \<notin> set ks) b"

text \<open>The deterministic key \<open>packages/<accountHash>/<bundleID>/<id>.ipa\<close>.\<close>

definition computed_key :: "string \<Rightarrow> string \<Rightarrow> string \<Rightarrow> string" where
  "computed_key h b i = ''packages/'' @ h @ ''/'' @ b @ ''/'' @ i @ ''.ipa''"

text \<open>
  \<open>deleteR2Files\<close>: the stored key, the computed key and its \<open>.new\<close> sibling, as a set.
\<close>

definition deleteR2Files ::
  "dm_state \<Rightarrow> string \<Rightarrow> string \<Rightarrow> string option \<Rightarrow> DownloadTask option \<Rightarrow> dm_state" where
  "deleteR2Files s i h r2key task =
     (let keysToDelete =
            (if truthy r2key then [the r2key] else [])
            @ (case task of
                 None \<Rightarrow> []
               | Some t \<Rightarrow>
                   let computed = computed_key h (bundleID (software t)) i
                   in [computed, computed @ ''.new''])
      in if length (remdups keysToDelete) > 0
         then s\<lparr> bucket := bucket_delete keysToDelete (bucket s) \<rparr>
         else s)"

subsection \<open>The download pipeline's writes to the store\<close>

text \<open>
  A pipeline (\<open>startDownload\<close>) works on its own task object, the one \<open>createTask\<close>
  built or the one \<open>resumeTask\<close> loaded, and each of its writes saves that object, whatever
  the store holds under the id by then. The cancellation signal is tested at the top of
  the read loop of \<open>streamToR2\<close> and by the reads themselves; the writes below are not
  preceded by a test of it. The task argument of each function is the pipeline's object.
\<close>

text \<open>
  \<open>startDownload\<close> up to its first suspension: the controller is registered and the
  task is saved as \<open>downloading\<close>. The task object is updated in place, so the caller
  sees the updated task.
\<close>

definition startDownload_begin :: "dm_state \<Rightarrow> DownloadTask \<Rightarrow> dm_state \<times> DownloadTask" where
  "startDownload_begin s task =
     (let s = s\<lparr> abortControllers := insert (task_id task) (abortControllers s) \<rparr>;
          task = task\<lparr> status := Downloading, progress := 0, speed := ''0 B/s'',
                       task_error := None \<rparr>
      in (saveTask s task, task))"

text \<open>The throttled progress report of \<open>streamToR2\<close>.\<close>

definition download_progress :: "dm_state \<Rightarrow> DownloadTask \<Rightarrow> string \<Rightarrow> nat \<Rightarrow> dm_state" where
  "download_progress s task sp pr = saveTask s (task\<lparr> speed := sp, progress := pr \<rparr>)"

text \<open>The multipart upload completes: the object of \<open>n\<close> bytes is in the blob store.\<close>

definition upload_completed :: "dm_state \<Rightarrow> DownloadTask \<Rightarrow> nat \<Rightarrow> dm_state" where
  "upload_completed s task n =
     s\<lparr> bucket := AList.update
                     (computed_key (accountHash task) (bundleID (software task)) (task_id task))
                     n (bucket s) \<rparr>"

text \<open>\<open>if (task.sinfs.length > 0 || task.iTunesMetadata)\<close>: the task is saved as \<open>injecting\<close>.\<close>

definition needs_injection :: "DownloadTask \<Rightarrow> bool" where
  "needs_injection task \<longleftrightarrow> length (sinfs task) > 0 \<or> truthy (iTunesMetadata task)"

definition download_injecting :: "dm_state \<Rightarrow> DownloadTask \<Rightarrow> dm_state" where
  "download_injecting s task = saveTask s (task\<lparr> status := Injecting, progress := 100 \<rparr>)"

text \<open>
  The completion transition: the task is saved as \<open>completed\<close> with its secrets
  cleared, \<open>r2key:<id>\<close> is written, the controller is dropped.
\<close>

definition download_complete :: "dm_state \<Rightarrow> DownloadTask \<Rightarrow> dm_state" where
  "download_complete s task =
     (let r2key = computed_key (accountHash task) (bundleID (software task)) (task_id task);
          task = task\<lparr> status := Completed, progress := 100, downloadURL := [], sinfs := [],
                       iTunesMetadata := None \<rparr>;
          s = saveTask s task;
          s = s\<lparr> r2keys := AList.update (task_id task) r2key (r2keys s) \<rparr>
      in s\<lparr> abortControllers := abortControllers s - {task_id task} \<rparr>)"

text \<open>
  The \<open>catch\<close> branch: for the cancellation (\<open>AbortError\<close>) the controller registered
  under the id is dropped and nothing is saved; for another error the task is saved as
  \<open>failed\<close> as well.
\<close>

definition download_aborted :: "dm_state \<Rightarrow> DownloadTask \<Rightarrow> dm_state" where
  "download_aborted s task = s\<lparr> abortControllers := abortControllers s - {task_id task} \<rparr>"

definition download_failed :: "dm_state \<Rightarrow> DownloadTask \<Rightarrow> string \<Rightarrow> dm_state" where
  "download_failed s task msg =
     (let s = s\<lparr> abortControllers := abortControllers s - {task_id task} \<rparr>
      in saveTask s (task\<lparr> status := Failed, task_error := Some msg \<rparr>))"

subsection \<open>RPC methods\<close>

text \<open>
  \<open>createTask\<close>; \<open>newId\<close> is the result of \<open>crypto.randomUUID()\<close> and \<open>now\<close> the time of
  \<open>new Date()\<close>. The background download has run up to its first suspension when the
  method returns, and the returned record is the sanitized task object after that.
\<close>

definition createTask ::
  "(string \<Rightarrow> (string \<times> string) option) \<Rightarrow> dm_state \<Rightarrow> CreateTaskParams \<Rightarrow> string \<Rightarrow> int
     \<Rightarrow> error + (dm_state \<times> (string \<times> json) list)" where
  "createTask parseURL s params newId now =
     (case validateDownloadURL parseURL (p_downloadURL params) of
        Inl e \<Rightarrow> Inl e
      | Inr _ \<Rightarrow>
          if p_accountHash params = [] \<or> length (p_accountHash params) < MIN_ACCOUNT_HASH_LENGTH
          then Inl InvalidAccountHash
          else
            let existingIds = account_index s (p_accountHash params) in
            if list_ex (\<lambda>existingId.
                  case loadTask s existingId of
                    None \<Rightarrow> False
                  | Some existing \<Rightarrow>
                      bundleID (software existing) = bundleID (p_software params) \<and>
                      version (software existing) = version (p_software params) \<and>
                      status existing \<noteq> Failed) existingIds
            then Inl AlreadyDownloading
            else
              let task = \<lparr> task_id = newId, software = p_software params,
                           accountHash = p_accountHash params,
                           downloadURL = p_downloadURL params, sinfs = p_sinfs params,
                           iTunesMetadata = p_iTunesMetadata params, status = Pending,
                           progress = 0, speed = ''0 B/s'', task_error = None,
                           createdAt = now, filePath = None \<rparr>;
                  s = saveTask s task;
                  s = addToAccountIndex s (p_accountHash params) (task_id task)
              in case startDownload_begin s task of
                   (s, task) \<Rightarrow> Inr (s, sanitize task False None))"

definition getTask :: "dm_state \<Rightarrow> string \<Rightarrow> string \<Rightarrow> (string \<times> json) list option" where
  "getTask s i h =
     (case loadTask s i of
        None \<Rightarrow> None
      | Some task \<Rightarrow>
          if accountHash task \<noteq> h then None
          else
            let r2key = map_of (r2keys s) i;
                head = head_of s r2key
            in Some (sanitize task (head \<noteq> None) head))"

definition listTasks :: "dm_state \<Rightarrow> string list \<Rightarrow> (string \<times> json) list list" where
  "listTasks s accountHashes =
     concat (map (\<lambda>h.
       concat (map (\<lambda>i.
         case loadTask s i of
           None \<Rightarrow> []
         | Some task \<Rightarrow>
             let r2key = map_of (r2keys s) i;
                 head = head_of s r2key
             in [sanitize task (head \<noteq> None) head]) (account_index s h))) accountHashes)"

text \<open>The result pair of the three methods below is the new state and the returned flag.\<close>

definition deleteTask :: "dm_state \<Rightarrow> string \<Rightarrow> string \<Rightarrow> dm_state \<times> bool" where
  "deleteTask s i h =
     (case loadTask s i of
        None \<Rightarrow> (s, False)
      | Some task \<Rightarrow>
          if accountHash task \<noteq> h then (s, False)
          else
            let s = s\<lparr> abortControllers := abortControllers s - {i} \<rparr>;
                storedR2Key = map_of (r2keys s) i;
                s = deleteR2Files s i h storedR2Key (Some task);
                s = s\<lparr> tasks := AList.delete i (tasks s) \<rparr>;
                s = s\<lparr> r2keys := AList.delete i (r2keys s) \<rparr>;
                s = removeFromAccountIndex s h i
            in (s, True))"

definition pauseTask :: "dm_state \<Rightarrow> string \<Rightarrow> string \<Rightarrow> dm_state \<times> bool" where
  "pauseTask s i h =
     (case loadTask s i of
        None \<Rightarrow> (s, False)
      | Some task \<Rightarrow>
          if accountHash task \<noteq> h then (s, False)
          else if status task \<noteq> Downloading then (s, False)
          else
            let s = s\<lparr> abortControllers := abortControllers s - {i} \<rparr>
            in (saveTask s (task\<lparr> status := Paused \<rparr>), True))"

definition resumeTask :: "dm_state \<Rightarrow> string \<Rightarrow> string \<Rightarrow> dm_state \<times> bool" where
  "resumeTask s i h =
     (case loadTask s i of
        None \<Rightarrow> (s, False)
      | Some task \<Rightarrow>
          if accountHash task \<noteq> h then (s, False)
          else if status task \<noteq> Paused then (s, False)
          else (fst (startDownload_begin s task), True))"

text \<open>\<open>getTaskPublic\<close>: the object \<open>{ software, hasFile }\<close>.\<close>

definition getTaskPublic :: "dm_state \<Rightarrow> string \<Rightarrow> (string \<times> json) list option" where
  "getTaskPublic s i =
     (case loadTask s i of
        None \<Rightarrow> None
      | Some task \<Rightarrow>
          if status task \<noteq> Completed then None
          else
            let r2key = map_of (r2keys s) i;
                hasFile = (truthy r2key \<and> head_object s (the r2key) \<noteq> None)
            in Some [(''software'', software_json (software task)), (''hasFile'', JBool hasFile)])"

definition getR2KeyPublic :: "dm_state \<Rightarrow> string \<Rightarrow> string option" where
  "getR2KeyPublic s i =
     (case loadTask s i of
        None \<Rightarrow> None
      | Some task \<Rightarrow> if status task \<noteq> Completed then None else map_of (r2keys s) i)"

text \<open>\<open>purgeTask\<close>\<close>

definition purgeTask ::
  "dm_state \<Rightarrow> string \<Rightarrow> string \<Rightarrow> string option \<Rightarrow> DownloadTask option \<Rightarrow> dm_state" where
  "purgeTask s i h r2key task =
     (let s = s\<lparr> abortControllers := abortControllers s - {i} \<rparr>;
          s = deleteR2Files s i h r2key task;
          s = s\<lparr> tasks := AList.delete i (tasks s) \<rparr>;
          s = s\<lparr> r2keys := AList.delete i (r2keys s) \<rparr>
      in removeFromAccountIndex s h i)"

subsection \<open>Janitor (cleanupExpired)\<close>

text \<open>An element of \<open>allTasks\<close>.\<close>

record task_entry =
  e_id :: string
  e_task :: DownloadTask
  e_r2key :: "string option"

text \<open>The local variables of \<open>cleanupExpired\<close>, with the state of the store.\<close>

record janitor =
  dm :: dm_state
  allTasks :: "task_entry list"
  sizeMap :: "(string \<times> nat) list"
  totalSize :: int
  deletedByAge :: nat
  deletedBySize :: nat
  deletedOrphaned :: nat

text \<open>
  The two listings that open the run: \<open>storage.list({ prefix: 'task:' })\<close> gives the
  task records in the order of their keys (a stored record always parses here, so none
  is skipped), and the listing of the blob store fills \<open>sizeMap\<close> and \<open>totalSize\<close>.
\<close>

definition collect :: "dm_state \<Rightarrow> janitor" where
  "collect s =
     \<lparr> dm = s,
       allTasks = map (\<lambda>(i, t). \<lparr> e_id = i, e_task = t, e_r2key = map_of (r2keys s) i \<rparr>)
                    (sort_key fst (tasks s)),
       sizeMap = bucket s,
       totalSize = sum_list (map (\<lambda>(k, n). int n) (bucket s)),
       deletedByAge = 0, deletedBySize = 0, deletedOrphaned = 0 \<rparr>"

text \<open>
  The four statements both purging loops share: the size of the entry's blob is looked
  up, the task is purged, its key leaves \<open>sizeMap\<close>, its size leaves \<open>totalSize\<close>.
\<close>

definition purge_entry :: "janitor \<Rightarrow> task_entry \<Rightarrow> janitor" where
  "purge_entry j e =
     (let size = (if truthy (e_r2key e)
                  then (case map_of (sizeMap j) (the (e_r2key e)) of
                          Some n \<Rightarrow> int n | None \<Rightarrow> 0)
                  else 0)
      in j\<lparr> dm := purgeTask (dm j) (e_id e) (accountHash (e_task e)) (e_r2key e)
                    (Some (e_task e)),
            sizeMap := (if truthy (e_r2key e)
                        then AList.delete (the (e_r2key e)) (sizeMap j) else sizeMap j),
            totalSize := totalSize j - size \<rparr>)"

text \<open>Phase 1; \<open>now\<close> is \<open>Date.now()\<close>. The loop runs over a copy of \<open>allTasks\<close>.\<close>

definition age_step :: "int \<Rightarrow> task_entry \<Rightarrow> janitor \<Rightarrow> janitor" where
  "age_step cutoff e j =
     (if createdAt (e_task e) < cutoff
      then let j = purge_entry j e
           in j\<lparr> allTasks := remove1 e (allTasks j), deletedByAge := deletedByAge j + 1 \<rparr>
      else j)"

definition phase1 :: "int \<Rightarrow> int \<Rightarrow> janitor \<Rightarrow> janitor" where
  "phase1 days now j =
     (if days > 0
      then let cutoff = now - days * 24 * 60 * 60 * 1000
           in fold (age_step cutoff) (allTasks j) j
      else j)"

text \<open>Phase 2: the body of the loop after its \<open>break\<close> test, and the loop.\<close>

definition quota_step :: "task_entry \<Rightarrow> janitor \<Rightarrow> janitor" where
  "quota_step e j =
     (let j = purge_entry j e
      in j\<lparr> deletedBySize := deletedBySize j + 1 \<rparr>)"

fun quota_loop :: "int \<Rightarrow> task_entry list \<Rightarrow> janitor \<Rightarrow> janitor" where
  "quota_loop maxBytes [] j = j"
| "quota_loop maxBytes (e # es) j =
     (if totalSize j \<le> maxBytes then j
      else quota_loop maxBytes es (quota_step e j))"

text \<open>\<open>allTasks.sort\<close> with the comparator on \<open>createdAt\<close>; the sort is stable.\<close>

definition sort_by_createdAt :: "task_entry list \<Rightarrow> task_entry list" where
  "sort_by_createdAt es = sort_key (\<lambda>e. createdAt (e_task e)) es"

definition phase2 :: "int \<Rightarrow> janitor \<Rightarrow> janitor" where
  "phase2 maxMB j =
     (if maxMB > 0
      then let maxBytes = maxMB * 1024 * 1024
           in if totalSize j > maxBytes
              then let j = j\<lparr> allTasks := sort_by_createdAt (allTasks j) \<rparr>
                   in quota_loop maxBytes (allTasks j) j
              else j
      else j)"

text \<open>Phase 3: the blobs of \<open>sizeMap\<close> that no \<open>r2key:*\<close> value names are deleted.\<close>

definition phase3 :: "janitor \<Rightarrow> janitor" where
  "phase3 j =
     (let knownR2Keys = set (map snd (r2keys (dm j)));
          orphans = filter (\<lambda>(k, n). k \<notin> knownR2Keys) (sizeMap j);
          orphanKeys = map fst orphans;
          j = j\<lparr> totalSize := totalSize j - sum_list (map (\<lambda>(k, n). int n) orphans),
                 deletedOrphaned := deletedOrphaned j + length orphans \<rparr>
      in if length orphanKeys > 0
         then j\<lparr> dm := (dm j)\<lparr> bucket := bucket_delete orphanKeys (bucket (dm j)) \<rparr> \<rparr>
         else j)"

text \<open>
  \<open>cleanupExpired\<close>: the new state of the store and the counts of the result, with the
  final total in bytes (the source reports it in MiB, rounded to two decimals).
\<close>

definition cleanupExpired ::
  "dm_state \<Rightarrow> int \<Rightarrow> int \<Rightarrow> int \<Rightarrow> dm_state \<times> (nat \<times> nat \<times> nat \<times> int)" where
  "cleanupExpired s days maxMB now =
     (let j = phase3 (phase2 maxMB (phase1 days now (collect s)))
      in (dm j, (deletedByAge j, deletedBySize j, deletedOrphaned j, totalSize j)))"

text \<open>
  For the properties of the janitor: the size a listing gives for a key (0 when it has
  none), the keys the records of a list of entries name, the bytes these keys stand for
  in a listing (a key counts once), the cutoff of the age phase and the entries older
  than a cutoff.
\<close>

definition key_size :: "(string \<times> nat) list \<Rightarrow> string \<Rightarrow> int" where
  "key_size listing k = (case map_of listing k of Some n \<Rightarrow> int n | None \<Rightarrow> 0)"

definition stored_keys :: "task_entry list \<Rightarrow> string list" where
  "stored_keys es = map (\<lambda>e. the (e_r2key e)) (filter (\<lambda>e. truthy (e_r2key e)) es)"

definition purged_size :: "(string \<times> nat) list \<Rightarrow> task_entry list \<Rightarrow> int" where
  "purged_size listing es = sum (key_size listing) (set (stored_keys es))"

definition age_cutoff :: "int \<Rightarrow> int \<Rightarrow> int" where
  "age_cutoff now days = now - days * 24 * 60 * 60 * 1000"

definition aged :: "int \<Rightarrow> task_entry list \<Rightarrow> task_entry list" where
  "aged cutoff es = filter (\<lambda>e. createdAt (e_task e) < cutoff) es"

subsection \<open>Properties stated of the store\<close>

text \<open>None of the four secret properties is a property of the object.\<close>

definition secrets_absent :: "(string \<times> json) list \<Rightarrow> bool" where
  "secrets_absent obj \<longleftrightarrow>
     ''downloadURL'' \<notin> set (map fst obj) \<and> ''sinfs'' \<notin> set (map fst obj) \<and>
     ''iTunesMetadata'' \<notin> set (map fst obj) \<and> ''filePath'' \<notin> set (map fst obj)"

text \<open>\<open>r2key:<id>\<close> exists if and only if \<open>task:<id>\<close> exists and is completed.\<close>

definition completed_iff_keyed :: "dm_state \<Rightarrow> bool" where
  "completed_iff_keyed s \<longleftrightarrow>
     (\<forall>i. (map_of (r2keys s) i \<noteq> None) = (\<exists>t. loadTask s i = Some t \<and> status t = Completed))"

text \<open>The ids of the stored tasks of one account, bundle and version that have not failed.\<close>

definition live_tasks :: "dm_state \<Rightarrow> string \<Rightarrow> string \<Rightarrow> string \<Rightarrow> string set" where
  "live_tasks s h b v =
     {i. \<exists>t. loadTask s i = Some t \<and> accountHash t = h \<and> bundleID (software t) = b \<and>
              version (software t) = v \<and> status t \<noteq> Failed}"

subsection \<open>Test data of the store\<close>

text \<open>A URL parser that knows the URL of the test data.\<close>

definition test_parseURL :: "string \<Rightarrow> (string \<times> string) option" where
  "test_parseURL url =
     (if url = ''https://iosapps.itunes.apple.com/app.ipa''
      then Some (''https:'', ''iosapps.itunes.apple.com'')
      else if url = ''http://iosapps.itunes.apple.com/app.ipa''
      then Some (''http:'', ''iosapps.itunes.apple.com'')
      else None)"

definition test_software :: Software where
  "test_software =
     \<lparr> sw_id = 1, bundleID = ''com.example.app'', sw_name = ''App'', version = ''1.0'',
       sw_display = [] \<rparr>"

definition test_params :: CreateTaskParams where
  "test_params =
     \<lparr> p_software = test_software, p_accountHash = ''account1'',
       p_downloadURL = ''https://iosapps.itunes.apple.com/app.ipa'',
       p_sinfs = [\<lparr> sinf_id = 0, sinf = ''AAAA'' \<rparr>], p_iTunesMetadata = None \<rparr>"

text \<open>The task \<open>t1\<close> as \<open>createTask\<close> leaves it at second 1, and the store holding it.\<close>

definition test_task :: DownloadTask where
  "test_task =
     \<lparr> task_id = ''t1'', software = test_software, accountHash = ''account1'',
       downloadURL = ''https://iosapps.itunes.apple.com/app.ipa'',
       sinfs = [\<lparr> sinf_id = 0, sinf = ''AAAA'' \<rparr>], iTunesMetadata = None,
       status = Downloading, progress = 0, speed = ''0 B/s'', task_error = None,
       createdAt = 1000, filePath = None \<rparr>"

definition store_created :: dm_state where
  "store_created =
     \<lparr> tasks = [(''t1'', test_task)], r2keys = [], accounts = [(''account1'', [''t1''])],
       abortControllers = {''t1''}, bucket = [] \<rparr>"

text \<open>The store after the download of \<open>t1\<close> has put 3 bytes and completed.\<close>

definition store_completed :: dm_state where
  "store_completed =
     \<lparr> tasks = [(''t1'', test_task\<lparr> status := Completed, progress := 100, downloadURL := [],
                                     sinfs := [] \<rparr>)],
       r2keys = [(''t1'', ''packages/account1/com.example.app/t1.ipa'')],
       accounts = [(''account1'', [''t1''])],
       abortControllers = {},
       bucket = [(''packages/account1/com.example.app/t1.ipa'', 3)] \<rparr>"

text \<open>
  The store after \<open>t1\<close> was paused; the store in which \<open>t1\<close> is completed and keyed and a
  second pipeline has then saved its own object; the store after \<open>t1\<close> was deleted, its
  pipeline saved its object, and the same request was accepted again as \<open>t2\<close>.
\<close>

definition store_paused :: dm_state where
  "store_paused =
     \<lparr> tasks = [(''t1'', test_task\<lparr> status := Paused \<rparr>)], r2keys = [],
       accounts = [(''account1'', [''t1''])], abortControllers = {}, bucket = [] \<rparr>"

definition store_stale :: dm_state where
  "store_stale =
     \<lparr> tasks = [(''t1'', test_task\<lparr> speed := ''1.0 MB/s'', progress := 50 \<rparr>)],
       r2keys = [(''t1'', ''packages/account1/com.example.app/t1.ipa'')],
       accounts = [(''account1'', [''t1''])],
       abortControllers = {},
       bucket = [(''packages/account1/com.example.app/t1.ipa'', 3)] \<rparr>"

definition store_two_live :: dm_state where
  "store_two_live =
     \<lparr> tasks = [(''t1'', test_task\<lparr> speed := ''1.0 MB/s'', progress := 50 \<rparr>),
                (''t2'', test_task\<lparr> task_id := ''t2'', createdAt := 2000 \<rparr>)],
       r2keys = [], accounts = [(''account1'', [''t2''])], abortControllers = {''t2''},
       bucket = [] \<rparr>"

text \<open>
  Test data of the janitor: three completed tasks of one account, created at seconds 1,
  2 and 3, with a blob of 1 MiB each, and a blob that no record names.
\<close>

definition completed_task :: "string \<Rightarrow> int \<Rightarrow> DownloadTask" where
  "completed_task i c =
     \<lparr> task_id = i, software = test_software\<lparr> version := i \<rparr>, accountHash = ''account1'',
       downloadURL = [], sinfs = [], iTunesMetadata = None, status = Completed,
       progress = 100, speed = ''0 B/s'', task_error = None, createdAt = c, filePath = None \<rparr>"

definition janitor_store :: dm_state where
  "janitor_store =
     \<lparr> tasks = [(''t1'', completed_task ''t1'' 1000), (''t2'', completed_task ''t2'' 2000),
                (''t3'', completed_task ''t3'' 3000)],
       r2keys = [(''t1'', ''packages/account1/com.example.app/t1.ipa''),
                 (''t2'', ''packages/account1/com.example.app/t2.ipa''),
                 (''t3'', ''packages/account1/com.example.app/t3.ipa'')],
       accounts = [(''account1'', [''t1'', ''t2'', ''t3''])],
       abortControllers = {},
       bucket = [(''packages/account1/com.example.app/t1.ipa'', 1048576),
                 (''packages/account1/com.example.app/t2.ipa'', 1048576),
                 (''packages/account1/com.example.app/t3.ipa'', 1048576),
                 (''stray.bin'', 5)] \<rparr>"

section \<open>Injection step (injectSinf)\<close>

text \<open>
  The blob store as \<open>injectSinf\<close> uses it: the objects by key, and the log of the
  writing calls made on it (\<open>head\<close> and \<open>get\<close> leave no trace).
\<close>

datatype r2_write =
    CreateMultipartUpload string
  | UploadPart string nat bytes
  | CompleteUpload string
  | AbortUpload string
  | PutObject string bytes
  | DeleteObject string

record blob_store =
  r2_objects :: "string \<rightharpoonup> bytes"
  r2_writes :: "r2_write list"

text \<open>\<open>IPA_BUCKET.get(key, { range: { offset: start, length: end - start } })\<close>\<close>

definition r2_readRange :: "blob_store \<Rightarrow> string \<Rightarrow> nat \<Rightarrow> nat \<Rightarrow> error + bytes" where
  "r2_readRange st key start end =
     (case r2_objects st key of
        None \<Rightarrow> Inl ReadFailed
      | Some obj \<Rightarrow> Inr (subarray obj start end))"

definition COPY_CHUNK :: nat where "COPY_CHUNK = 50 * 1024 * 1024"

text \<open>
  The loop \<open>for (let offset = 0; offset < cdOffset; offset += COPY_CHUNK)\<close>, from \<open>off\<close>
  on: the parts uploaded so far, the next part number and \<open>tailAppended\<close>, with the
  error that left the loop, if one did.
\<close>

function copy_loop ::
  "(nat \<Rightarrow> nat \<Rightarrow> error + bytes) \<Rightarrow> nat \<Rightarrow> bytes \<Rightarrow> nat \<Rightarrow> (nat \<times> bytes) list \<Rightarrow> nat \<Rightarrow> bool
     \<Rightarrow> error option \<times> (nat \<times> bytes) list \<times> nat \<times> bool" where
  "copy_loop readRange cdOff tail off ps num tailAppended =
     (if off < cdOff
      then let len = min COPY_CHUNK (cdOff - off)
           in case readRange off (off + len) of
                Inl e \<Rightarrow> (Some e, ps, num, tailAppended)
              | Inr chunk \<Rightarrow>
                  let isLastChunk = (off + len \<ge> cdOff)
                  in if isLastChunk
                     then copy_loop readRange cdOff tail (off + COPY_CHUNK)
                            (ps @ [(num, chunk @ tail)]) (num + 1) True
                     else copy_loop readRange cdOff tail (off + COPY_CHUNK)
                            (ps @ [(num, chunk)]) (num + 1) tailAppended
      else (None, ps, num, tailAppended))"
  by pat_completeness auto

termination
  by (relation "measure (\<lambda>(readRange, cdOff, tail, off, ps, num, tailAppended). cdOff - off)")
     (auto simp: COPY_CHUNK_def)

declare copy_loop.simps [simp del]

text \<open>
  \<open>injectSinf\<close> on the object at \<open>r2key\<close>. \<open>buildFilesToAppend\<close> is the method of that
  name with its task fixed: from the entries of the central directory and the range
  reader it gives the files to append, or fails; its body (property lists, inflation,
  base64) is not part of the model. The four statements that locate the central
  directory are those of \<open>locate_cd\<close>; \<open>maxArgs\<close> is the engine's limit on the arguments
  of a call, for \<open>appendToZipTail\<close>. The result is the error thrown, if any, and the blob
  store.
\<close>

definition injectSinf ::
  "nat \<Rightarrow> (CdEntry list \<Rightarrow> (nat \<Rightarrow> nat \<Rightarrow> error + bytes) \<Rightarrow> error + AppendFile list)
     \<Rightarrow> string \<Rightarrow> blob_store \<Rightarrow> error option \<times> blob_store" where
  "injectSinf maxArgs buildFilesToAppend r2key st =
     (case r2_objects st r2key of
        None \<Rightarrow> (Some ObjectNotFound, st)
      | Some meta \<Rightarrow>
          let archiveSize = length meta;
              readRange = r2_readRange st r2key
          in case locate_cd archiveSize readRange of
               Inl e \<Rightarrow> (Some e, st)
             | Inr (eocd, entries) \<Rightarrow>
                 (case buildFilesToAppend entries readRange of
                    Inl e \<Rightarrow> (Some e, st)
                  | Inr filesToAppend \<Rightarrow>
                      if length filesToAppend = 0 then (None, st)
                      else
                        (case appendToZipTail maxArgs archiveSize readRange filesToAppend
                                (Some (eocd, entries)) of
                           Inl e \<Rightarrow> (Some e, st)
                         | Inr (cdOff, tail) \<Rightarrow>
                             let newKey = r2key @ ''.new'';
                                 st = st\<lparr> r2_writes := r2_writes st @ [CreateMultipartUpload newKey] \<rparr>
                             in case copy_loop readRange cdOff tail 0 [] 1 False of
                                  (Some e, ps, num, tailAppended) \<Rightarrow>
                                    (Some e,
                                     st\<lparr> r2_writes := r2_writes st
                                           @ map (\<lambda>(n, d). UploadPart newKey n d) ps
                                           @ [AbortUpload newKey] \<rparr>)
                                | (None, ps, num, tailAppended) \<Rightarrow>
                                    let ps = (if \<not> tailAppended then ps @ [(num, tail)] else ps);
                                        st = st\<lparr> r2_writes := r2_writes st
                                                  @ map (\<lambda>(n, d). UploadPart newKey n d) ps
                                                  @ [CompleteUpload newKey],
                                                r2_objects := (r2_objects st)
                                                  (newKey \<mapsto> concat (map snd ps)) \<rparr>
                                    in case r2_objects st newKey of
                                         None \<Rightarrow> (Some RenameFailed, st)
                                       | Some body \<Rightarrow>
                                           (None,
                                            st\<lparr> r2_objects := ((r2_objects st)(r2key \<mapsto> body))
                                                                 (newKey := None),
                                                r2_writes := r2_writes st
                                                  @ [PutObject r2key body, DeleteObject newKey] \<rparr>))))"

text \<open>Test data: a blob store that holds the empty archive, or the archive of one entry.\<close>

definition store_of :: "bytes \<Rightarrow> blob_store" where
  "store_of A = \<lparr> r2_objects = [''packages/account1/com.example.app/t1.ipa'' \<mapsto> A],
                 r2_writes = [] \<rparr>"

section \<open>Properties of the ZIP tail builder\<close>

lemma u16_in_range: "off + 2 \<le> length buf \<Longrightarrow> u16 buf off = Inr (rd16 buf off)"
  by (simp add: u16_def)

lemma u32_in_range: "off + 4 \<le> length buf \<Longrightarrow> u32 buf off = Inr (rd32 buf off)"
  by (simp add: u32_def)

subsection \<open>The backward scan of \<open>findEocd\<close>\<close>

lemma scan_none:
  "i \<le> int (length tail) - 22 \<Longrightarrow>
   (\<forall>j. int j \<le> i \<longrightarrow> \<not> eocd_candidate tail j) \<Longrightarrow>
   findEocd_scan tail n i = Inl NotAZip"
proof (induction tail n i rule: findEocd_scan.induct)
  case (1 tail n i)
  show ?case
  proof (cases "i \<ge> int (length tail) - int (min (length tail) (65535 + 22)) \<and> \<not> i < 0")
    case False
    then show ?thesis by (subst findEocd_scan.simps) auto
  next
    case True
    then have i0: "0 \<le> i" and lo: "int (length tail) \<le> i + 65557" by auto
    have len: "nat i + 22 \<le> length tail" using "1.prems"(1) i0 by linarith
    have nc: "\<not> eocd_candidate tail (nat i)" using "1.prems"(2) i0 by simp
    have rest: "\<forall>j. int j \<le> i - 1 \<longrightarrow> \<not> eocd_candidate tail j" using "1.prems"(2) by simp
    have r32: "u32 tail (nat i) = Inr (rd32 tail (nat i))" using len by (simp add: u32_in_range)
    have r8: "u16 tail (nat i + 8) = Inr (rd16 tail (nat i + 8))" using len by (simp add: u16_in_range)
    have r10: "u16 tail (nat i + 10) = Inr (rd16 tail (nat i + 10))" using len by (simp add: u16_in_range)
    show ?thesis
    proof (cases "rd32 tail (nat i) = SIG_EOCD")
      case False
      have "findEocd_scan tail n (i - 1) = Inl NotAZip"
        using "1.IH"(2)[OF _ _ r32 False] True "1.prems"(1) rest by simp
      then show ?thesis using True False r32 by (subst findEocd_scan.simps) simp
    next
      case sig: True
      then have ne: "rd16 tail (nat i + 8) \<noteq> rd16 tail (nat i + 10)"
        using nc len lo i0 by (auto simp: eocd_candidate_def)
      have "findEocd_scan tail n (i - 1) = Inl NotAZip"
        using "1.IH"(1)[OF _ _ r32 sig r8 r10 ne] True "1.prems"(1) rest by simp
      then show ?thesis using True sig r32 r8 r10 ne by (subst findEocd_scan.simps) simp
    qed
  qed
qed

lemma scan_found:
  "i \<le> int (length tail) - 22 \<Longrightarrow> int k \<le> i \<Longrightarrow> eocd_candidate tail k \<Longrightarrow>
   (\<forall>j. k < j \<and> int j \<le> i \<longrightarrow> \<not> eocd_candidate tail j) \<Longrightarrow>
   findEocd_scan tail n i = eocd_at tail n k"
proof (induction tail n i rule: findEocd_scan.induct)
  case (1 tail n i)
  have i0: "0 \<le> i" using "1.prems"(2) by linarith
  have klen: "k + 22 \<le> length tail" and klo: "length tail \<le> k + 65557"
    using "1.prems"(3) by (auto simp: eocd_candidate_def)
  have lo: "int (length tail) \<le> i + 65557" using klo "1.prems"(2) by linarith
  have guard: "i \<ge> int (length tail) - int (min (length tail) (65535 + 22))" "\<not> i < 0"
    using lo i0 by auto
  have len: "nat i + 22 \<le> length tail" using "1.prems"(1) i0 by linarith
  have r32: "u32 tail (nat i) = Inr (rd32 tail (nat i))" using len by (simp add: u32_in_range)
  have r8: "u16 tail (nat i + 8) = Inr (rd16 tail (nat i + 8))" using len by (simp add: u16_in_range)
  have r10: "u16 tail (nat i + 10) = Inr (rd16 tail (nat i + 10))" using len by (simp add: u16_in_range)
  have r12: "u32 tail (nat i + 12) = Inr (rd32 tail (nat i + 12))" using len by (simp add: u32_in_range)
  have r16: "u32 tail (nat i + 16) = Inr (rd32 tail (nat i + 16))" using len by (simp add: u32_in_range)
  show ?case
  proof (cases "int k = i")
    case True
    then have ki: "nat i = k" by simp
    have sig: "rd32 tail (nat i) = SIG_EOCD" and eq: "rd16 tail (nat i + 8) = rd16 tail (nat i + 10)"
      using "1.prems"(3) ki by (auto simp: eocd_candidate_def)
    have "int (nat i) = i" using i0 by simp
    then show ?thesis using guard sig eq r32 r8 r10 r12 r16 ki
      by (subst findEocd_scan.simps) (simp add: eocd_at_def)
  next
    case False
    then have kl: "int k \<le> i - 1" and kn: "k < nat i" using "1.prems"(2) by linarith+
    have nc: "\<not> eocd_candidate tail (nat i)" using "1.prems"(4) kn i0 by simp
    have rest: "\<forall>j. k < j \<and> int j \<le> i - 1 \<longrightarrow> \<not> eocd_candidate tail j"
      using "1.prems"(4) by simp
    show ?thesis
    proof (cases "rd32 tail (nat i) = SIG_EOCD")
      case False
      have "findEocd_scan tail n (i - 1) = eocd_at tail n k"
        using "1.IH"(2)[OF guard r32 False] "1.prems"(1,3) kl rest by simp
      then show ?thesis using guard False r32 by (subst findEocd_scan.simps) simp
    next
      case sig: True
      then have ne: "rd16 tail (nat i + 8) \<noteq> rd16 tail (nat i + 10)"
        using nc len lo i0 by (auto simp: eocd_candidate_def)
      have "findEocd_scan tail n (i - 1) = eocd_at tail n k"
        using "1.IH"(1)[OF guard r32 sig r8 r10 ne] "1.prems"(1,3) kl rest by simp
      then show ?thesis using guard sig r32 r8 r10 ne by (subst findEocd_scan.simps) simp
    qed
  qed
qed

lemma findEocd_cases:
  "((\<forall>i. \<not> eocd_candidate tail i) \<and> findEocd tail n = Inl NotAZip) \<or>
   (\<exists>k. eocd_candidate tail k \<and> (\<forall>j. k < j \<longrightarrow> \<not> eocd_candidate tail j) \<and>
        findEocd tail n = eocd_at tail n k)"
proof (cases "\<exists>i. eocd_candidate tail i")
  case False
  then have "findEocd tail n = Inl NotAZip"
    unfolding findEocd_def by (intro scan_none) auto
  with False show ?thesis by blast
next
  case True
  let ?C = "{i. eocd_candidate tail i}"
  have fin: "finite ?C"
    by (rule finite_subset[of _ "{..length tail}"]) (auto simp: eocd_candidate_def)
  have ne: "?C \<noteq> {}" using True by auto
  define k where "k = Max ?C"
  have kc: "eocd_candidate tail k" using Max_in[OF fin ne] by (simp add: k_def)
  have kmax: "\<forall>j. k < j \<longrightarrow> \<not> eocd_candidate tail j"
    using Max_ge[OF fin] unfolding k_def by (metis mem_Collect_eq not_le)
  have "int k \<le> int (length tail) - 22" using kc by (auto simp: eocd_candidate_def)
  then have "findEocd tail n = eocd_at tail n k"
    unfolding findEocd_def using kc kmax by (intro scan_found) auto
  with kc kmax show ?thesis by blast
qed

lemma eocd_at_not_NotAZip: "eocd_at tail n k \<noteq> Inl NotAZip"
  by (simp add: eocd_at_def)

text \<open>
  Claim C5 (failure modes of \<open>findEocd\<close>), as the code has it. The scan skips a
  signature whose disk-entries field differs from its total-entries field and goes on
  looking, so a multi-disk record is never reported as unsupported. \<open>findEocd\<close> fails
  with the not-a-ZIP error exactly when the scanned window holds no position with the
  signature and equal disk-entries and total-entries fields, in particular when it holds
  no signature. At the last such position, it fails with the ZIP64 error if the
  total-entries field or the central-directory offset holds its sentinel, and it returns
  the record if no field holds a sentinel; what it answers when only another field (the
  central-directory size, a disk number) holds a sentinel is not stated here. It fails
  in no other way.
\<close>

theorem findEocd_failure_modes:
  "(findEocd tail n = Inl NotAZip \<longleftrightarrow> (\<forall>i. \<not> eocd_candidate tail i)) \<and>
   ((\<forall>i. i + 22 \<le> length tail \<and> length tail \<le> i + (65535 + 22) \<longrightarrow> rd32 tail i \<noteq> SIG_EOCD)
      \<longrightarrow> findEocd tail n = Inl NotAZip) \<and>
   (\<forall>i. eocd_candidate tail i \<and> (\<forall>j. i < j \<longrightarrow> \<not> eocd_candidate tail j) \<longrightarrow>
      (rd32 tail (i + 16) = 0xffffffff \<or> rd16 tail (i + 10) = 0xffff
         \<longrightarrow> findEocd tail n = Inl Zip64Unsupported) \<and>
      (no_sentinel tail i
         \<longrightarrow> findEocd tail n =
               Inr \<lparr> offset = int i + (int n - int (length tail)),
                     entryCount = rd16 tail (i + 10),
                     cdSize = rd32 tail (i + 12),
                     cdOffset = rd32 tail (i + 16) \<rparr>)) \<and>
   (\<forall>err. findEocd tail n = Inl err \<longrightarrow> err = NotAZip \<or> err = Zip64Unsupported)"
proof -
  from findEocd_cases[of tail n] show ?thesis
  proof
    assume a: "(\<forall>i. \<not> eocd_candidate tail i) \<and> findEocd tail n = Inl NotAZip"
    then show ?thesis by auto
  next
    assume "\<exists>k. eocd_candidate tail k \<and> (\<forall>j. k < j \<longrightarrow> \<not> eocd_candidate tail j) \<and>
        findEocd tail n = eocd_at tail n k"
    then obtain k where kc: "eocd_candidate tail k"
      and kmax: "\<forall>j. k < j \<longrightarrow> \<not> eocd_candidate tail j"
      and res: "findEocd tail n = eocd_at tail n k" by blast
    have uniq: "\<And>i. eocd_candidate tail i \<Longrightarrow> (\<forall>j. i < j \<longrightarrow> \<not> eocd_candidate tail j) \<Longrightarrow> i = k"
      using kc kmax by (meson nat_neq_iff)
    have c1: "findEocd tail n = Inl NotAZip \<longleftrightarrow> (\<forall>i. \<not> eocd_candidate tail i)"
      using kc res by (auto simp: eocd_at_def)
    have c1': "(\<forall>i. i + 22 \<le> length tail \<and> length tail \<le> i + (65535 + 22) \<longrightarrow> rd32 tail i \<noteq> SIG_EOCD)
      \<longrightarrow> findEocd tail n = Inl NotAZip"
      using kc by (auto simp: eocd_candidate_def)
    have c2: "\<forall>i. eocd_candidate tail i \<and> (\<forall>j. i < j \<longrightarrow> \<not> eocd_candidate tail j) \<longrightarrow>
      (rd32 tail (i + 16) = 0xffffffff \<or> rd16 tail (i + 10) = 0xffff
         \<longrightarrow> findEocd tail n = Inl Zip64Unsupported) \<and>
      (no_sentinel tail i
         \<longrightarrow> findEocd tail n =
               Inr \<lparr> offset = int i + (int n - int (length tail)),
                     entryCount = rd16 tail (i + 10),
                     cdSize = rd32 tail (i + 12),
                     cdOffset = rd32 tail (i + 16) \<rparr>)"
    proof (intro allI impI)
      fix i
      assume "eocd_candidate tail i \<and> (\<forall>j. i < j \<longrightarrow> \<not> eocd_candidate tail j)"
      then have ik: "i = k" using uniq by blast
      show "(rd32 tail (i + 16) = 0xffffffff \<or> rd16 tail (i + 10) = 0xffff
         \<longrightarrow> findEocd tail n = Inl Zip64Unsupported) \<and>
        (no_sentinel tail i
         \<longrightarrow> findEocd tail n =
               Inr \<lparr> offset = int i + (int n - int (length tail)),
                     entryCount = rd16 tail (i + 10),
                     cdSize = rd32 tail (i + 12),
                     cdOffset = rd32 tail (i + 16) \<rparr>)"
        unfolding ik res by (simp add: eocd_at_def no_sentinel_def)
    qed
    have c3: "\<forall>err. findEocd tail n = Inl err \<longrightarrow> err = NotAZip \<or> err = Zip64Unsupported"
      using res by (auto simp: eocd_at_def split: if_splits)
    show ?thesis using c1 c1' c2 c3 by blast
  qed
qed

text \<open>
  The theorem at concrete tails: a record whose total-entries field is \<open>0xFFFF\<close> is
  refused as ZIP64, an empty tail is not a ZIP file, and the EOCD record of the empty
  archive, which holds no sentinel, is returned.
\<close>

theorem findEocd_failure_modes_witness:
  "findEocd zip64_tail 22 = Inl Zip64Unsupported \<and> findEocd [] 0 = Inl NotAZip \<and>
   findEocd empty_zip 22 = Inr empty_eocd"
proof -
  have c: "eocd_candidate zip64_tail 0"
    by (simp add: eocd_candidate_def zip64_tail_def rd32_def rd16_def SIG_EOCD_def)
  have m: "\<forall>j. 0 < j \<longrightarrow> \<not> eocd_candidate zip64_tail j"
    by (simp add: eocd_candidate_def zip64_tail_def)
  have s: "rd16 zip64_tail (0 + 10) = 0xffff"
    by (simp add: zip64_tail_def rd16_def)
  have a: "findEocd zip64_tail 22 = Inl Zip64Unsupported"
    using findEocd_failure_modes[of zip64_tail 22] c m s by blast
  have n: "\<forall>i. i + 22 \<le> length ([] :: bytes) \<and> length ([] :: bytes) \<le> i + (65535 + 22)
             \<longrightarrow> rd32 [] i \<noteq> SIG_EOCD" by simp
  have b: "findEocd [] 0 = Inl NotAZip"
    using findEocd_failure_modes[of "[]" 0] n by blast
  have c': "eocd_candidate empty_zip 0"
    by (simp add: eocd_candidate_def empty_zip_def rd32_def rd16_def SIG_EOCD_def)
  have m': "\<forall>j. 0 < j \<longrightarrow> \<not> eocd_candidate empty_zip j"
    by (simp add: eocd_candidate_def empty_zip_def)
  have ns: "no_sentinel empty_zip 0"
    by (simp add: no_sentinel_def empty_zip_def rd32_def rd16_def)
  have "findEocd empty_zip 22 =
          Inr \<lparr> offset = int 0 + (int 22 - int (length empty_zip)),
                entryCount = rd16 empty_zip (0 + 10), cdSize = rd32 empty_zip (0 + 12),
                cdOffset = rd32 empty_zip (0 + 16) \<rparr>"
    using findEocd_failure_modes[of empty_zip 22] c' m' ns by blast
  then have d: "findEocd empty_zip 22 = Inr empty_eocd"
    by (simp add: empty_zip_def empty_eocd_def rd32_def rd16_def)
  show ?thesis using a b d by simp
qed

text \<open>
  Claim C5 as the specification words it fails, twice. On a 22-byte record with the
  signature, one entry on this disk and two in total, \<open>findEocd\<close> answers with the
  not-a-ZIP error, not with the unsupported one. On the record of the empty archive
  whose central-directory size is the sentinel \<open>0xFFFFFFFF\<close>, it answers with the record:
  the code tests the total-entries field and the central-directory offset, not every
  field that can hold a sentinel.
\<close>

theorem findEocd_multi_disk_counterexample:
  "rd32 multi_disk_tail 0 = SIG_EOCD \<and>
   rd16 multi_disk_tail 8 \<noteq> rd16 multi_disk_tail 10 \<and>
   findEocd multi_disk_tail 22 = Inl NotAZip \<and>
   findEocd multi_disk_tail 22 \<noteq> Inl Zip64Unsupported \<and>
   rd32 cdsize_sentinel_tail 12 = 0xffffffff \<and>
   findEocd cdsize_sentinel_tail 22 = Inr cdsize_sentinel_eocd"
  by (simp add: findEocd_def findEocd_scan.simps multi_disk_tail_def cdsize_sentinel_tail_def
      cdsize_sentinel_eocd_def eocd_at_def u32_def u16_def rd32_def rd16_def SIG_EOCD_def)

lemma crc32_test: "crc32 [0x61] = 0xe8b7be43" by (simp add: crc32_def CRC_TABLE_def crc_round_def)

lemma length_w16 [simp]: "length (w16 buf off v) = length buf"
  by (simp add: w16_def)

lemma length_w32 [simp]: "length (w32 buf off v) = length buf"
  by (simp add: w32_def)

lemma length_buf_set: "pos + length src \<le> length target \<Longrightarrow> length (buf_set target src pos) = length target"
  by (simp add: buf_set_def)

lemma length_buildLocalEntry: "length (buildLocalEntry n d) = 30 + length n + length d"
  by (simp add: buildLocalEntry_def Let_def length_buf_set)

lemma length_buildCdEntry: "length (buildCdEntry n d off) = 46 + length n"
  by (simp add: buildCdEntry_def Let_def length_buf_set)

lemma length_build_eocd: "length (build_eocd n sz off) = 22"
  by (simp add: build_eocd_def Let_def)

lemma le16: "(v::nat) mod 256 + 256 * ((v div 256) mod 256) = v mod 65536"
  using mod_mult2_eq[of v 256 256] by simp

lemma le32: "(v::nat) mod 256 + 256 * ((v div 256) mod 256) + 65536 * ((v div 65536) mod 256)
    + 16777216 * ((v div 16777216) mod 256) = v mod 4294967296"
proof -
  have a: "v mod 4294967296 = 16777216 * (v div 16777216 mod 256) + v mod 16777216"
    using mod_mult2_eq[of v 16777216 256] by simp
  have b: "v mod 16777216 = 65536 * (v div 65536 mod 256) + v mod 65536"
    using mod_mult2_eq[of v 65536 256] by simp
  show ?thesis using a b le16[of v] by simp
qed

lemma unat_byte: "unat (of_nat (x mod 256) :: 8 word) = x mod 256"
  by (simp add: unat_of_nat)

lemma rd16_w16: "off + 2 \<le> length buf \<Longrightarrow> rd16 (w16 buf off v) off = v mod 65536"
  by (simp add: rd16_def w16_def unat_byte le16)

lemma rd32_w32: "off + 4 \<le> length buf \<Longrightarrow> rd32 (w32 buf off v) off = v mod 4294967296"
  using le32[of v] by (simp add: rd32_def w32_def unat_byte)

lemma rd16_w16_other: "off' + 2 \<le> off \<or> off + 2 \<le> off' \<Longrightarrow> rd16 (w16 buf off' v) off = rd16 buf off"
  by (auto simp: rd16_def w16_def)

lemma rd16_w32_other: "off' + 4 \<le> off \<or> off + 2 \<le> off' \<Longrightarrow> rd16 (w32 buf off' v) off = rd16 buf off"
  by (auto simp: rd16_def w32_def)

lemma rd32_w16_other: "off' + 2 \<le> off \<or> off + 4 \<le> off' \<Longrightarrow> rd32 (w16 buf off' v) off = rd32 buf off"
  by (auto simp: rd32_def w16_def)

lemma rd32_w32_other: "off' + 4 \<le> off \<or> off + 4 \<le> off' \<Longrightarrow> rd32 (w32 buf off' v) off = rd32 buf off"
  by (auto simp: rd32_def w32_def)

lemmas rd_other = rd16_w16_other rd16_w32_other rd32_w16_other rd32_w32_other

lemma build_eocd_fields:
  "rd32 (build_eocd n sz off) 0 = SIG_EOCD"
  "rd16 (build_eocd n sz off) 8 = n mod 65536"
  "rd16 (build_eocd n sz off) 10 = n mod 65536"
  "rd32 (build_eocd n sz off) 12 = sz mod 4294967296"
  "rd32 (build_eocd n sz off) 16 = off mod 4294967296"
  by (simp_all add: build_eocd_def Let_def rd_other rd16_w16 rd32_w32 SIG_EOCD_def)

lemma append_loop_offset:
  "fst (append_loop fs off lbs ces) =
     off + sum_list (map (\<lambda>f. 30 + length (af_name f) + length (af_data f)) fs)"
  by (induction fs arbitrary: off lbs ces) (simp_all add: Let_def length_buildLocalEntry)

lemma append_loop_blocks:
  "fst (snd (append_loop fs off lbs ces)) =
     lbs @ map (\<lambda>f. buildLocalEntry (af_name f) (af_data f)) fs"
  by (induction fs arbitrary: off lbs ces) (simp_all add: Let_def)

lemma append_loop_cd_lengths:
  "map (\<lambda>(n, d, off). length (buildCdEntry n d off)) (snd (snd (append_loop fs off lbs ces))) =
     map (\<lambda>(n, d, off). length (buildCdEntry n d off)) ces @ map (\<lambda>f. 46 + length (af_name f)) fs"
  by (induction fs arbitrary: off lbs ces) (simp_all add: Let_def length_buildCdEntry)

lemma append_loop_facts:
  assumes "append_loop fs off [] [] = (off', lbs, ces)"
  shows "off' = off + sum_list (map (\<lambda>f. 30 + length (af_name f) + length (af_data f)) fs)"
    and "length (concat lbs) = sum_list (map (\<lambda>f. 30 + length (af_name f) + length (af_data f)) fs)"
    and "sum_list (map length (map (\<lambda>(n, d, off). buildCdEntry n d off) ces))
           = sum_list (map (\<lambda>f. 46 + length (af_name f)) fs)"
proof -
  show "off' = off + sum_list (map (\<lambda>f. 30 + length (af_name f) + length (af_data f)) fs)"
    using append_loop_offset[of fs off "[]" "[]"] assms by simp
  have l: "lbs = map (\<lambda>f. buildLocalEntry (af_name f) (af_data f)) fs"
    using append_loop_blocks[of fs off "[]" "[]"] assms by simp
  show "length (concat lbs) = sum_list (map (\<lambda>f. 30 + length (af_name f) + length (af_data f)) fs)"
    by (simp add: l length_concat o_def length_buildLocalEntry)
  have "map length (map (\<lambda>(n, d, off). buildCdEntry n d off) ces)
          = map (\<lambda>(n, d, off). length (buildCdEntry n d off)) ces"
    by (simp add: case_prod_unfold)
  also have "\<dots> = map (\<lambda>f. 46 + length (af_name f)) fs"
    using append_loop_cd_lengths[of fs off "[]" "[]"] assms by simp
  finally show "sum_list (map length (map (\<lambda>(n, d, off). buildCdEntry n d off) ces))
           = sum_list (map (\<lambda>f. 46 + length (af_name f)) fs)" by simp
qed

text \<open>The arrays of the tail: how many they are, and what they concatenate to.\<close>

lemma append_loop_counts:
  "length (fst (snd (append_loop fs off lbs ces))) = length lbs + length fs"
  "length (snd (snd (append_loop fs off lbs ces))) = length ces + length fs"
  by (induction fs arbitrary: off lbs ces) (simp_all add: Let_def)

lemma length_tail_arrays: "length (tail_arrays e es fs) = 2 * length fs + length es + 1"
proof -
  obtain off' lbs ces where al: "append_loop fs (cdOffset e) [] [] = (off', lbs, ces)"
    by (cases "append_loop fs (cdOffset e) [] []") auto
  have "length lbs = length fs" "length ces = length fs"
    using append_loop_counts[of fs "cdOffset e" "[]" "[]"] al by simp_all
  then show ?thesis by (simp add: tail_arrays_def al Let_def)
qed

lemma tail_arrays_split:
  "\<exists>locals newcd.
     concat (tail_arrays e es fs) =
       locals @ concat (map raw es) @ newcd
         @ build_eocd (length es + length fs)
             (sum_list (map (length \<circ> raw) es) + sum_list (map (\<lambda>f. 46 + length (af_name f)) fs))
             (cdOffset e + sum_list (map (\<lambda>f. 30 + length (af_name f) + length (af_data f)) fs)) \<and>
     length locals = sum_list (map (\<lambda>f. 30 + length (af_name f) + length (af_data f)) fs) \<and>
     length newcd = sum_list (map (\<lambda>f. 46 + length (af_name f)) fs)"
proof -
  obtain off' lbs ces where al: "append_loop fs (cdOffset e) [] [] = (off', lbs, ces)"
    by (cases "append_loop fs (cdOffset e) [] []") auto
  note f = append_loop_facts[OF al]
  let ?newcd = "concat (map (\<lambda>(n, d, off). buildCdEntry n d off) ces)"
  have ln: "length ?newcd = sum_list (map (\<lambda>f. 46 + length (af_name f)) fs)"
    using f(3) by (simp add: length_concat)
  have "concat (tail_arrays e es fs) = concat lbs @ concat (map raw es) @ ?newcd
         @ build_eocd (length es + length fs)
             (sum_list (map (length \<circ> raw) es) + sum_list (map (\<lambda>f. 46 + length (af_name f)) fs))
             (cdOffset e + sum_list (map (\<lambda>f. 30 + length (af_name f) + length (af_data f)) fs))"
    using f(1) f(3) by (simp add: tail_arrays_def al Let_def)
  then show ?thesis using f(2) ln by blast
qed

lemma build_tail_within:
  "2 * length fs + length es + 1 \<le> maxArgs \<Longrightarrow>
   build_tail maxArgs e es fs = Inr (concat (tail_arrays e es fs))"
  by (simp add: build_tail_def concat_call_def length_tail_arrays)

lemma build_tail_beyond:
  "maxArgs < 2 * length fs + length es + 1 \<Longrightarrow>
   build_tail maxArgs e es fs = Inl CallStackExceeded"
  by (simp add: build_tail_def concat_call_def length_tail_arrays)

text \<open>findEocd on a buffer that ends with an EOCD record\<close>

lemma rd16_append: "rd16 (P @ E) (length P + k) = rd16 E k"
  by (simp add: rd16_def nth_append add.assoc)

lemma rd32_append: "rd32 (P @ E) (length P + k) = rd32 E k"
  by (simp add: rd32_def nth_append add.assoc)

lemma findEocd_trailing:
  assumes "length E = 22" and "rd32 E 0 = SIG_EOCD" and "rd16 E 8 = rd16 E 10"
  shows "findEocd (P @ E) m = eocd_at (P @ E) m (length P)"
proof -
  have c: "eocd_candidate (P @ E) (length P)"
    using assms rd32_append[of P E 0] rd16_append[of P E 8] rd16_append[of P E 10]
    by (simp add: eocd_candidate_def)
  have "findEocd_scan (P @ E) m (int (length (P @ E)) - 22) = eocd_at (P @ E) m (length P)"
    by (rule scan_found) (use assms c in auto)
  then show ?thesis by (simp add: findEocd_def)
qed

lemma eocd_at_trailing:
  assumes "length E = 22"
  shows "eocd_at (P @ E) m (length P) =
     (if rd32 E 16 = 0xffffffff \<or> rd16 E 10 = 0xffff then Inl Zip64Unsupported
      else Inr \<lparr> offset = int (length P) + (int m - int (length P + 22)),
                 entryCount = rd16 E 10, cdSize = rd32 E 12, cdOffset = rd32 E 16 \<rparr>)"
  using assms by (simp add: eocd_at_def rd16_append rd32_append)

lemma parse_stop:
  "\<not> (pos + 4 \<le> length cd \<and> rd32 cd pos = SIG_CD) \<Longrightarrow> parseCentralDirectory_from cd pos = Inr []"
  by (subst parseCentralDirectory_from.simps) (auto simp: u32_def)

lemma parse_truncated:
  "pos + 4 \<le> length cd \<Longrightarrow> rd32 cd pos = SIG_CD \<Longrightarrow> \<not> entry_end cd pos \<le> length cd \<Longrightarrow>
   parseCentralDirectory_from cd pos = Inl RangeError"
  by (subst parseCentralDirectory_from.simps) (simp add: u32_def u16_def entry_end_def)

lemma parse_step:
  "pos + 4 \<le> length cd \<Longrightarrow> rd32 cd pos = SIG_CD \<Longrightarrow> entry_end cd pos \<le> length cd \<Longrightarrow>
   parseCentralDirectory_from cd pos =
     (case parseCentralDirectory_from cd (entry_end cd pos) of
        Inl e \<Rightarrow> Inl e
      | Inr entries \<Rightarrow>
          Inr (\<lparr> cd_name = subarray cd (pos + 46) (pos + 46 + rd16 cd (pos + 28)),
                 cd_method = rd16 cd (pos + 10),
                 cd_crc32 = rd32 cd (pos + 16),
                 compressedSize = rd32 cd (pos + 20),
                 uncompressedSize = rd32 cd (pos + 24),
                 localOffset = rd32 cd (pos + 42),
                 cdEntryOffset = pos,
                 cdEntryLength = entry_end cd pos - pos,
                 extra = subarray cd (pos + 46 + rd16 cd (pos + 28))
                           (pos + 46 + rd16 cd (pos + 28) + rd16 cd (pos + 30)),
                 comment = subarray cd (pos + 46 + rd16 cd (pos + 28) + rd16 cd (pos + 30))
                             (entry_end cd pos),
                 raw = subarray cd pos (entry_end cd pos) \<rparr> # entries))"
  unfolding entry_end_def
  by (subst parseCentralDirectory_from.simps) (simp add: u32_def u16_def)

lemma drop_subarray:
  "pos \<le> e \<Longrightarrow> e \<le> length cd \<Longrightarrow> drop pos cd = subarray cd pos e @ drop e cd"
proof -
  assume a: "pos \<le> e" "e \<le> length cd"
  have "drop e cd = drop (e - pos) (drop pos cd)" using a by simp
  then show ?thesis unfolding subarray_def by (metis append_take_drop_id)
qed

lemma parse_from_prefix:
  "parseCentralDirectory_from cd pos = Inr es \<Longrightarrow> prefix (concat (map raw es)) (drop pos cd)"
proof (induction "length cd - pos" arbitrary: pos es rule: less_induct)
  case less
  show ?case
  proof (cases "pos + 4 \<le> length cd \<and> rd32 cd pos = SIG_CD")
    case False
    then have "es = []" using less.prems parse_stop[of pos cd] by simp
    then show ?thesis by simp
  next
    case True
    then have ee: "entry_end cd pos \<le> length cd"
      using less.prems parse_truncated[of pos cd] by auto
    have gt: "pos < entry_end cd pos" by (simp add: entry_end_def)
    from less.prems parse_step[of pos cd] True ee obtain rest where
      rest: "parseCentralDirectory_from cd (entry_end cd pos) = Inr rest"
      and es: "concat (map raw es) = subarray cd pos (entry_end cd pos) @ concat (map raw rest)"
      by (auto split: sum.splits)
    have ih: "prefix (concat (map raw rest)) (drop (entry_end cd pos) cd)"
      by (rule less.hyps[OF _ rest]) (use gt ee in linarith)
    show ?thesis
      using ih es drop_subarray[of pos "entry_end cd pos" cd] gt ee by simp
  qed
qed

lemma parse_prefix: "parseCentralDirectory cd = Inr es \<Longrightarrow> prefix (concat (map raw es)) cd"
  using parse_from_prefix[of cd 0 es] by (simp add: parseCentralDirectory_def)

lemma eocd_of_trailing:
  assumes len: "length E = 22" and sig: "rd32 E 0 = SIG_EOCD" and eq: "rd16 E 8 = rd16 E 10"
  shows "eocd_of (Q @ E) =
     (if rd32 E 16 = 0xffffffff \<or> rd16 E 10 = 0xffff then Inl Zip64Unsupported
      else Inr \<lparr> offset = int (length Q), entryCount = rd16 E 10,
                 cdSize = rd32 E 12, cdOffset = rd32 E 16 \<rparr>)"
proof -
  define n where "n = length (Q @ E)"
  define d where "d = n - min (65536 + 22) n"
  define P where "P = drop d Q"
  have dq: "d \<le> length Q" using len by (auto simp: d_def n_def)
  have w1: "drop d (Q @ E) = P @ E" using dq by (simp add: P_def)
  have "length (drop d (Q @ E)) = n - d" by (simp only: length_drop n_def)
  then have t: "take (n - d) (drop d (Q @ E)) = drop d (Q @ E)"
    by (intro take_all) (simp only: order_refl)
  have w: "subarray (Q @ E) d n = P @ E"
    by (simp only: subarray_def w1 t[unfolded w1])
  have off: "int (length P) + (int n - int (length P + 22)) = int (length Q)"
    using len by (simp add: n_def)
  have "eocd_of (Q @ E) = findEocd (P @ E) n"
    unfolding eocd_of_def n_def[symmetric] d_def[symmetric] w ..
  also have "\<dots> = eocd_at (P @ E) n (length P)"
    by (rule findEocd_trailing[OF len sig eq])
  also have "\<dots> = (if rd32 E 16 = 0xffffffff \<or> rd16 E 10 = 0xffff then Inl Zip64Unsupported
      else Inr \<lparr> offset = int (length P) + (int n - int (length P + 22)),
                 entryCount = rd16 E 10, cdSize = rd32 E 12, cdOffset = rd32 E 16 \<rparr>)"
    by (rule eocd_at_trailing[OF len])
  finally show ?thesis unfolding off .
qed

lemma locate_cd_valid:
  "valid_archive A e es \<Longrightarrow> locate_cd (length A) (readRange_of A) = Inr (e, es)"
  by (simp add: valid_archive_def locate_cd_def readRange_of_def eocd_of_def cd_bytes_def Let_def)

lemma rewritten_nonempty:
  "valid_archive A e es \<Longrightarrow> fs \<noteq> [] \<Longrightarrow> 2 * length fs + length es + 1 \<le> maxArgs \<Longrightarrow>
   rewritten maxArgs A fs = Inr (take (cdOffset e) A @ concat (tail_arrays e es fs))"
  by (simp add: rewritten_def appendToZipTail_def locate_cd_valid subarray_def build_tail_within)

lemma rewritten_beyond:
  "valid_archive A e es \<Longrightarrow> fs \<noteq> [] \<Longrightarrow> maxArgs < 2 * length fs + length es + 1 \<Longrightarrow>
   rewritten maxArgs A fs = Inl CallStackExceeded"
  by (simp add: rewritten_def appendToZipTail_def locate_cd_valid build_tail_beyond)

lemma rewritten_empty: "rewritten maxArgs A [] = Inr A"
  by (simp add: rewritten_def appendToZipTail_def subarray_def)

lemma reread_nonempty:
  assumes v: "valid_archive A e es" and ne: "fs \<noteq> []"
    and ar: "2 * length fs + length es + 1 \<le> maxArgs"
  shows "\<exists>A' locals newcd. rewritten maxArgs A fs = Inr A' \<and>
     A' = take (cdOffset e) A @ locals @ concat (map raw es) @ newcd
            @ build_eocd (length es + length fs)
                (sum_list (map (length \<circ> raw) es) + sum_list (map file_cd_size fs))
                (cdOffset e + sum_list (map file_local_size fs)) \<and>
     length locals = sum_list (map file_local_size fs) \<and>
     length newcd = sum_list (map file_cd_size fs) \<and>
     eocd_of A' =
       (if (cdOffset e + sum_list (map file_local_size fs)) mod 4294967296 = 0xffffffff
           \<or> (length es + length fs) mod 65536 = 0xffff
        then Inl Zip64Unsupported
        else Inr \<lparr> offset = int (cdOffset e + sum_list (map file_local_size fs)
                               + sum_list (map (length \<circ> raw) es) + sum_list (map file_cd_size fs)),
                   entryCount = (length es + length fs) mod 65536,
                   cdSize = (sum_list (map (length \<circ> raw) es) + sum_list (map file_cd_size fs))
                              mod 4294967296,
                   cdOffset = (cdOffset e + sum_list (map file_local_size fs)) mod 4294967296 \<rparr>)"
proof -
  let ?E = "build_eocd (length es + length fs)
                (sum_list (map (length \<circ> raw) es) + sum_list (map file_cd_size fs))
                (cdOffset e + sum_list (map file_local_size fs))"
  from tail_arrays_split[of e es fs] obtain locals newcd where
    bt: "concat (tail_arrays e es fs) = locals @ concat (map raw es) @ newcd @ ?E"
    and ll: "length locals = sum_list (map file_local_size fs)"
    and ln: "length newcd = sum_list (map file_cd_size fs)"
    unfolding file_local_size_def[abs_def] file_cd_size_def[abs_def] by blast
  let ?Q = "take (cdOffset e) A @ locals @ concat (map raw es) @ newcd"
  have c: "cdOffset e \<le> length A" using v by (simp add: valid_archive_def)
  have lq: "length ?Q = cdOffset e + sum_list (map file_local_size fs)
                               + sum_list (map (length \<circ> raw) es) + sum_list (map file_cd_size fs)"
    using c ll ln by (simp add: length_concat o_def)
  have r: "rewritten maxArgs A fs = Inr (?Q @ ?E)"
    using rewritten_nonempty[OF v ne ar] bt by simp
  have "eocd_of (?Q @ ?E) =
       (if rd32 ?E 16 = 0xffffffff \<or> rd16 ?E 10 = 0xffff then Inl Zip64Unsupported
        else Inr \<lparr> offset = int (length ?Q), entryCount = rd16 ?E 10,
                 cdSize = rd32 ?E 12, cdOffset = rd32 ?E 16 \<rparr>)"
    by (rule eocd_of_trailing) (simp_all add: length_build_eocd build_eocd_fields)
  then have e: "eocd_of (?Q @ ?E) =
       (if (cdOffset e + sum_list (map file_local_size fs)) mod 4294967296 = 0xffffffff
           \<or> (length es + length fs) mod 65536 = 0xffff
        then Inl Zip64Unsupported
        else Inr \<lparr> offset = int (cdOffset e + sum_list (map file_local_size fs)
                               + sum_list (map (length \<circ> raw) es) + sum_list (map file_cd_size fs)),
                   entryCount = (length es + length fs) mod 65536,
                   cdSize = (sum_list (map (length \<circ> raw) es) + sum_list (map file_cd_size fs))
                              mod 4294967296,
                   cdOffset = (cdOffset e + sum_list (map file_local_size fs)) mod 4294967296 \<rparr>)"
    unfolding lq by (simp only: build_eocd_fields)
  show ?thesis
    apply (rule exI[of _ "?Q @ ?E"], rule exI[of _ locals], rule exI[of _ newcd])
    using r ll ln e by simp
qed

lemma valid_empty_zip: "valid_archive empty_zip empty_eocd []"
  by (simp add: valid_archive_def eocd_of_def cd_bytes_def subarray_def empty_zip_def empty_eocd_def
      findEocd_def findEocd_scan.simps u32_def u16_def rd32_def rd16_def SIG_EOCD_def
      parseCentralDirectory_def parseCentralDirectory_from.simps)

lemma valid_one_entry_zip: "valid_archive one_entry_zip one_entry_eocd [one_entry]"
  by (simp add: valid_archive_def eocd_of_def cd_bytes_def subarray_def one_entry_zip_def
      one_entry_cd_def one_entry_eocd_def one_entry_def
      findEocd_def findEocd_scan.simps u32_def u16_def rd32_def rd16_def SIG_EOCD_def SIG_CD_def
      parseCentralDirectory_def parseCentralDirectory_from.simps)

lemma upd_numeral: "(x # xs)[numeral k := y] = x # xs[pred_numeral k := y]"
  by (simp add: numeral_eq_Suc)

lemma rep_numeral: "replicate (numeral k) x = x # replicate (pred_numeral k) x"
  by (simp add: numeral_eq_Suc)

lemma build_eocd_test:
  "build_eocd (Suc 0) 47 32 =
     [0x50, 0x4b, 0x05, 0x06, 0, 0, 0, 0, 1, 0, 1, 0, 0x2f, 0, 0, 0, 0x20, 0, 0, 0, 0, 0]"
  by (simp add: build_eocd_def w16_def w32_def SIG_EOCD_def rep_numeral upd_numeral)

lemma buildCdEntry_test: "buildCdEntry [0x61] [0x61] 0 = one_entry_cd"
  by (simp add: buildCdEntry_def w16_def w32_def SIG_CD_def METHOD_STORED_def buf_set_def
      crc32_def CRC_TABLE_def crc_round_def one_entry_cd_def rep_numeral upd_numeral)

lemma buildLocalEntry_test:
  "buildLocalEntry [0x61] [0x61] =
     [0x50, 0x4b, 0x03, 0x04, 0x14, 0, 0, 0, 0, 0, 0, 0, 0, 0,
      0x43, 0xbe, 0xb7, 0xe8, 1, 0, 0, 0, 1, 0, 0, 0, 1, 0, 0, 0, 0x61, 0x61]"
  by (simp add: buildLocalEntry_def w16_def w32_def SIG_LOCAL_def METHOD_STORED_def buf_set_def
      crc32_def CRC_TABLE_def crc_round_def rep_numeral upd_numeral)

lemma builder_test: "3 \<le> maxArgs \<Longrightarrow> rewritten maxArgs empty_zip [file_a] = Inr one_entry_zip"
proof -
  have c0: "cdOffset empty_eocd = 0" by (simp add: empty_eocd_def)
  have al: "append_loop [file_a] 0 [] [] =
              (32, [buildLocalEntry [0x61] [0x61]], [([0x61], [0x61], 0)])"
    by (simp add: file_a_def Let_def length_buildLocalEntry)
  have cdl: "length (buildCdEntry [0x61] [0x61] 0) = 47"
    by (simp add: length_buildCdEntry)
  assume m: "3 \<le> maxArgs"
  have "concat (tail_arrays empty_eocd [] [file_a]) =
          buildLocalEntry [0x61] [0x61] @ buildCdEntry [0x61] [0x61] 0 @ build_eocd (Suc 0) 47 32"
    by (simp add: tail_arrays_def c0 al cdl del: append_loop.simps)
  then have bt: "take 0 empty_zip @ concat (tail_arrays empty_eocd [] [file_a]) = one_entry_zip"
    by (simp add: buildLocalEntry_test buildCdEntry_test build_eocd_test one_entry_zip_def)
  have "rewritten maxArgs empty_zip [file_a] =
          Inr (take (cdOffset empty_eocd) empty_zip @ concat (tail_arrays empty_eocd [] [file_a]))"
    by (rule rewritten_nonempty[OF valid_empty_zip]) (use m in simp_all)
  then show ?thesis by (simp only: c0 bt)
qed

text \<open>The archive of \<open>n\<close> stored entries is valid, for every \<open>n\<close> its EOCD can count.\<close>

lemma rd16_prefix: "k + 2 \<le> length b \<Longrightarrow> rd16 (b @ r) k = rd16 b k"
  by (simp add: rd16_def nth_append)

lemma rd32_prefix: "k + 4 \<le> length b \<Longrightarrow> rd32 (b @ r) k = rd32 b k"
  by (simp add: rd32_def nth_append)

lemma rd16_buf_set:
  "k + 2 \<le> pos \<Longrightarrow> pos \<le> length t \<Longrightarrow> rd16 (buf_set t src pos) k = rd16 t k"
  by (simp add: rd16_def buf_set_def nth_append)

lemma rd32_buf_set:
  "k + 4 \<le> pos \<Longrightarrow> pos \<le> length t \<Longrightarrow> rd32 (buf_set t src pos) k = rd32 t k"
  by (simp add: rd32_def buf_set_def nth_append)

lemma buildCdEntry_fields:
  "rd32 (buildCdEntry nm d off) 0 = SIG_CD"
  "rd16 (buildCdEntry nm d off) 28 = length nm mod 65536"
  "rd16 (buildCdEntry nm d off) 30 = 0"
  "rd16 (buildCdEntry nm d off) 32 = 0"
  by (simp_all add: buildCdEntry_def Let_def rd16_buf_set rd32_buf_set rd_other rd16_w16
      rd32_w32 SIG_CD_def)

lemma parse_blocks:
  assumes "\<forall>b \<in> set bs. rd32 b 0 = SIG_CD \<and> 46 + rd16 b 28 + rd16 b 30 + rd16 b 32 = length b"
  shows "\<exists>es. parseCentralDirectory_from (P @ concat bs) (length P) = Inr es \<and>
              length es = length bs \<and> map raw es = bs"
  using assms
proof (induction bs arbitrary: P)
  case Nil
  have "parseCentralDirectory_from P (length P) = Inr []"
    by (rule parse_stop) simp
  then show ?case by simp
next
  case (Cons b bs)
  let ?cd = "P @ concat (b # bs)"
  have sg: "rd32 b 0 = SIG_CD" and ln: "46 + rd16 b 28 + rd16 b 30 + rd16 b 32 = length b"
    using Cons.prems by simp_all
  have l46: "46 \<le> length b" using ln by linarith
  have cd: "?cd = P @ (b @ concat bs)" by simp
  have r32: "rd32 ?cd (length P) = SIG_CD"
    using rd32_append[of P "b @ concat bs" 0] rd32_prefix[of 0 b "concat bs"] l46 sg
    unfolding cd by simp
  have r16: "rd16 ?cd (length P + 28) = rd16 b 28" "rd16 ?cd (length P + 30) = rd16 b 30"
    "rd16 ?cd (length P + 32) = rd16 b 32"
    using l46 unfolding cd by (simp_all only: rd16_append) (simp_all add: rd16_prefix)
  have ee: "entry_end ?cd (length P) = length P + length b"
    unfolding entry_end_def r16 using ln by simp
  have le: "entry_end ?cd (length P) \<le> length ?cd" unfolding ee by simp
  have p4: "length P + 4 \<le> length ?cd" using l46 by simp
  have rw: "subarray ?cd (length P) (entry_end ?cd (length P)) = b"
    unfolding ee by (simp add: subarray_def)
  from Cons.IH[of "P @ b"] Cons.prems obtain es' where
    es': "parseCentralDirectory_from ((P @ b) @ concat bs) (length (P @ b)) = Inr es'"
      "length es' = length bs" "map raw es' = bs"
    by auto
  have nx: "parseCentralDirectory_from ?cd (entry_end ?cd (length P)) = Inr es'"
    unfolding ee using es'(1) by simp
  show ?case
    using parse_step[OF p4 r32 le] es'(2) es'(3)
    by (simp only: nx sum.case rw) simp
qed

lemma stored_zip_one: "stored_zip (Suc 0) = one_entry_zip"
  by (simp add: stored_zip_def buildLocalEntry_test buildCdEntry_test build_eocd_test
      one_entry_zip_def)

lemma valid_stored_zip:
  assumes n: "n < 65535"
  shows "\<exists>es. valid_archive (stored_zip n) (stored_eocd n) es"
proof -
  define L where "L = concat (replicate n (buildLocalEntry [0x61] [0x61]))"
  define bs where "bs = map (\<lambda>k. buildCdEntry [0x61] [0x61] (32 * k)) [0..<n]"
  define E where "E = build_eocd n (47 * n) (32 * n)"
  have z: "stored_zip n = (L @ concat bs) @ E"
    by (simp add: stored_zip_def L_def bs_def E_def)
  have lL: "length L = 32 * n"
    by (simp add: L_def length_concat sum_list_replicate length_buildLocalEntry)
  have lC: "length (concat bs) = 47 * n"
    by (simp add: bs_def length_concat o_def length_buildCdEntry sum_list_triv)
  have lE: "length E = 22" by (simp add: E_def length_build_eocd)
  have f: "rd32 E 0 = SIG_EOCD" "rd16 E 8 = n" "rd16 E 10 = n" "rd32 E 12 = 47 * n"
    "rd32 E 16 = 32 * n"
    using n by (simp_all add: E_def build_eocd_fields)
  have "eocd_of ((L @ concat bs) @ E) =
     (if rd32 E 16 = 0xffffffff \<or> rd16 E 10 = 0xffff then Inl Zip64Unsupported
      else Inr \<lparr> offset = int (length (L @ concat bs)), entryCount = rd16 E 10,
                 cdSize = rd32 E 12, cdOffset = rd32 E 16 \<rparr>)"
    by (rule eocd_of_trailing) (simp_all add: lE f)
  then have eo: "eocd_of (stored_zip n) = Inr (stored_eocd n)"
    unfolding z f using n by (simp add: lL lC stored_eocd_def)
  have "cd_bytes (stored_zip n) (stored_eocd n) = concat bs"
    unfolding z by (simp add: cd_bytes_def stored_eocd_def subarray_def lL lC)
  moreover have "\<forall>b \<in> set bs. rd32 b 0 = SIG_CD \<and> 46 + rd16 b 28 + rd16 b 30 + rd16 b 32 = length b"
    by (auto simp: bs_def buildCdEntry_fields length_buildCdEntry)
  from parse_blocks[OF this, of "[]"] obtain es where
    "parseCentralDirectory (concat bs) = Inr es" "length es = length bs"
    by (auto simp: parseCentralDirectory_def)
  moreover have "length bs = n" by (simp add: bs_def)
  ultimately have "valid_archive (stored_zip n) (stored_eocd n) es"
    using eo by (simp add: valid_archive_def stored_eocd_def z lL)
  then show ?thesis ..
qed

text \<open>
  Claim C1 (ZIP append is an extension), within the limits of the EOCD's fields and of
  the call that builds the tail. The code writes the new entry count through \<open>w16\<close> and
  the new central-directory size and offset through \<open>w32\<close>, which keep the low 16 and 32
  bits, and it hands the arrays of the tail to \<open>concat\<close> as so many arguments. For a
  valid archive \<open>A\<close> (its EOCD is found, its central directory parses into as many
  entries as the EOCD counts and starts inside the archive) and files \<open>fs\<close> such that the
  new count stays below \<open>0xFFFF\<close>, the new central-directory offset below \<open>0xFFFFFFFF\<close>,
  the new central-directory size below \<open>2^32\<close>, and the \<open>2 * length fs + entryCount e + 1\<close>
  arrays of the tail are no more than the engine takes as arguments: the rewritten
  archive has an EOCD whose entry count is \<open>entryCount e + length fs\<close>, and the central
  directory it points to starts with the raw bytes of every original entry, in order.
\<close>

theorem zip_append_extension:
  assumes v: "valid_archive A e es"
    and b0: "fs = [] \<or> 2 * length fs + entryCount e + 1 \<le> maxArgs"
    and b1: "entryCount e + length fs < 65535"
    and b2: "cdOffset e + sum_list (map file_local_size fs) < 4294967295"
    and b3: "sum_list (map (length \<circ> raw) es) + sum_list (map file_cd_size fs) < 4294967296"
  shows "\<exists>A' e'. rewritten maxArgs A fs = Inr A' \<and> eocd_of A' = Inr e' \<and>
           entryCount e' = entryCount e + length fs \<and>
           prefix (concat (map raw es)) (cd_bytes A' e')"
proof (cases "fs = []")
  case True
  have "prefix (concat (map raw es)) (cd_bytes A e)"
    using v by (intro parse_prefix) (simp add: valid_archive_def)
  then show ?thesis using v True by (simp add: rewritten_empty valid_archive_def)
next
  case False
  define off' where "off' = cdOffset e + sum_list (map file_local_size fs)"
  define sz' where "sz' = sum_list (map (length \<circ> raw) es) + sum_list (map file_cd_size fs)"
  have n: "length es = entryCount e" and c: "cdOffset e \<le> length A"
    using v by (simp_all add: valid_archive_def)
  have ar: "2 * length fs + length es + 1 \<le> maxArgs" using b0 False n by simp
  from reread_nonempty[OF v False ar] obtain A' locals newcd where
    r: "rewritten maxArgs A fs = Inr A'"
    and a: "A' = take (cdOffset e) A @ locals @ concat (map raw es) @ newcd
            @ build_eocd (length es + length fs) sz' off'"
    and ll: "length locals = sum_list (map file_local_size fs)"
    and ln: "length newcd = sum_list (map file_cd_size fs)"
    and eo: "eocd_of A' =
       (if off' mod 4294967296 = 0xffffffff \<or> (length es + length fs) mod 65536 = 0xffff
        then Inl Zip64Unsupported
        else Inr \<lparr> offset = int (off' + sz'),
                   entryCount = (length es + length fs) mod 65536,
                   cdSize = sz' mod 4294967296,
                   cdOffset = off' mod 4294967296 \<rparr>)"
    unfolding off'_def sz'_def by (auto simp: add.assoc)
  define e' where "e' = \<lparr> offset = int (off' + sz'), entryCount = entryCount e + length fs,
                   cdSize = sz', cdOffset = off' \<rparr>"
  have eo': "eocd_of A' = Inr e'"
    using eo b1 b2 b3 n by (simp add: e'_def off'_def[symmetric] sz'_def[symmetric])
  have lp: "length (take (cdOffset e) A @ locals) = off'"
    using c ll by (simp add: off'_def)
  have "drop off' A' = concat (map raw es) @ newcd @ build_eocd (length es + length fs) sz' off'"
    using lp unfolding a by (metis append.assoc append_eq_conv_conj)
  then have "cd_bytes A' e' = take sz' (concat (map raw es) @ newcd
                 @ build_eocd (length es + length fs) sz' off')"
    by (simp add: cd_bytes_def e'_def subarray_def)
  moreover have "length (concat (map raw es)) \<le> sz'"
    by (simp add: sz'_def length_concat o_def)
  ultimately have "prefix (concat (map raw es)) (cd_bytes A' e')"
    by (simp add: prefix_def)
  then show ?thesis using r eo' by (auto simp: e'_def)
qed

text \<open>
  The theorem at a one-entry archive (the file \<open>a\<close> holding the byte \<open>a\<close>) to which the
  same file is appended once more, on an engine that takes the four arguments of the
  call.
\<close>

theorem zip_append_extension_witness:
  "\<exists>A' e'. rewritten 4 one_entry_zip [file_a] = Inr A' \<and> eocd_of A' = Inr e' \<and>
      entryCount e' = 2 \<and> prefix one_entry_cd (cd_bytes A' e')"
proof -
  have b0: "[file_a] = [] \<or> 2 * length [file_a] + entryCount one_entry_eocd + 1 \<le> 4"
    by (simp add: one_entry_eocd_def)
  have b1: "entryCount one_entry_eocd + length [file_a] < 65535"
    by (simp add: one_entry_eocd_def)
  have b2: "cdOffset one_entry_eocd + sum_list (map file_local_size [file_a]) < 4294967295"
    by (simp add: one_entry_eocd_def file_local_size_def file_a_def)
  have b3: "sum_list (map (length \<circ> raw) [one_entry]) + sum_list (map file_cd_size [file_a])
              < 4294967296"
    by (simp add: one_entry_def one_entry_cd_def file_cd_size_def file_a_def)
  from zip_append_extension[OF valid_one_entry_zip b0 b1 b2 b3]
  show ?thesis by (simp add: one_entry_eocd_def one_entry_def numeral_2_eq_2)
qed

text \<open>
  Claim C1 as the specification words it, for every valid archive and file list, fails:
  the archive of 65534 stored entries is valid and has no ZIP64 sentinel, and appending
  one file to it, a call of 65537 arguments, gives an archive whose EOCD holds the count
  \<open>0xFFFF\<close>: \<open>findEocd\<close> refuses it as ZIP64 and yields no entry count, on every engine
  that takes the call.
\<close>

theorem zip_append_sentinel_counterexample:
  "(\<exists>es. valid_archive (stored_zip 65534) (stored_eocd 65534) es) \<and>
   entryCount (stored_eocd 65534) + length [file_a] = 65535 \<and>
   (\<forall>m. reread (65537 + m) (stored_zip 65534) [file_a] = Inl Zip64Unsupported)"
proof -
  from valid_stored_zip[of 65534] obtain es where
    v: "valid_archive (stored_zip 65534) (stored_eocd 65534) es" by auto
  then have n: "length es = 65534" by (simp add: valid_archive_def stored_eocd_def)
  have ne: "[file_a] \<noteq> []" by simp
  have "reread (65537 + m) (stored_zip 65534) [file_a] = Inl Zip64Unsupported" for m
  proof -
    have ar: "2 * length [file_a] + length es + 1 \<le> 65537 + m" by (simp add: n)
    from reread_nonempty[OF v ne ar] obtain A' where
      "rewritten (65537 + m) (stored_zip 65534) [file_a] = Inr A'"
      "eocd_of A' = Inl Zip64Unsupported"
      by (auto simp: n)
    then show ?thesis by (simp add: reread_def)
  qed
  moreover have "entryCount (stored_eocd 65534) + length [file_a] = 65535"
    by (simp add: stored_eocd_def)
  ultimately show ?thesis using v by blast
qed

section \<open>Properties of the tunnel session\<close>




lemma allowed_cases:
  "list_ex (\<lambda>r. r h) ALLOWED_HOSTS \<longleftrightarrow>
     h = ''auth.itunes.apple.com'' \<or> h = ''buy.itunes.apple.com'' \<or>
     h = ''init.itunes.apple.com'' \<or> re_pod h"
  by (auto simp: ALLOWED_HOSTS_def re_auth_def re_buy_def re_init_def)









lemma tunnel_happy_path:
  "snd (webSocketMessage ascii False False open_session auth_frame) =
     [OpenSocket ''auth.itunes.apple.com'' 443, Send [0x03, 1, 0, 0, 0, 0, 0, 2, 0]]"
  by (simp add: webSocketMessage_def auth_frame_def connect_auth_def TYPE_CONNECT_def
      handleConnect_def allowed_cases ascii_def char_of_def bit_0 Let_def rd32_def
      sendContinue_def open_session_def fetch_upgrade_def new_session_def continue_frame_def
      le32_def TYPE_CONTINUE_def)

section \<open>Properties of the proof of work\<close>

lemma verifyPow_used: "used c \<noteq> None \<Longrightarrow> verifyPow P used c n now now2 = (Inr False, used)"
  by (simp add: verifyPow_def Let_def)

lemma verifyPow_fresh:
  assumes "used c = None" and "challenge_timestamp P c = Some ts" and "now - ts > POW_CHALLENGE_TTL"
  shows "fst (verifyPow P used c n now now2) \<noteq> Inr True"
  using assms
  by (auto simp: verifyPow_def challenge_timestamp_def Let_def split: option.splits)

text \<open>
  What one call does to the entry of a challenge \<open>c\<close>: it stays, or it is set to the
  second clock reading, or it is dropped by the purge, and then the reading is more
  than twice the TTL after the entry's time.
\<close>

lemma verifyPow_entry:
  assumes "verifyPow P used c' n now now2 = (r, used')" and "used c = Some x"
  shows "used' c = Some x \<or> (used' c = None \<and> now2 - x > POW_CHALLENGE_TTL * 2)"
proof (cases "r = Inr True")
  case False
  then have "used' = used" using assms(1)
    by (auto simp: verifyPow_def Let_def split: if_splits option.splits)
  then show ?thesis using assms(2) by simp
next
  case True
  have u: "used c' = None"
  proof (rule ccontr)
    assume "used c' \<noteq> None"
    then have "verifyPow P used c' n now now2 = (Inr False, used)"
      by (rule verifyPow_used[of used c'])
    with assms(1) True show False by simp
  qed
  then have ne: "c' \<noteq> c" using assms(2) by auto
  define used1 where "used1 = used(c' \<mapsto> now2)"
  have u1: "used1 c = Some x" using ne assms(2) by (simp add: used1_def)
  from True assms(1) have "used' = used1 \<or>
      used' = (\<lambda>c. case used1 c of None \<Rightarrow> None
                  | Some ts \<Rightarrow> if now2 - ts > POW_CHALLENGE_TTL * 2 then None else Some ts)"
    unfolding used1_def
    by (auto simp: verifyPow_def Let_def split: if_splits option.splits)
  then show ?thesis using u1 by (auto split: if_splits)
qed

lemma verifyPow_accept_entry:
  assumes "verifyPow P used c n now now2 = (Inr True, used')"
  shows "used' c = Some now2"
proof -
  from assms have "used' = used(c \<mapsto> now2) \<or>
      used' = (\<lambda>k. case (used(c \<mapsto> now2)) k of None \<Rightarrow> None
                  | Some ts \<Rightarrow> if now2 - ts > POW_CHALLENGE_TTL * 2 then None else Some ts)"
    by (auto simp: verifyPow_def Let_def split: if_splits option.splits)
  then show ?thesis by (auto simp: POW_CHALLENGE_TTL_def)
qed

lemma verify_all_entry:
  assumes "clock_from t calls" and "(\<exists>x. used c = Some x \<and> t0 \<le> x) \<or> t > t0 + POW_CHALLENGE_TTL * 2"
    and "t0 \<le> t"
  shows "(\<exists>x. verify_all P used calls c = Some x \<and> t0 \<le> x)
         \<or> last_reading t calls > t0 + POW_CHALLENGE_TTL * 2"
  using assms
proof (induction calls arbitrary: used t)
  case Nil
  then show ?case by simp
next
  case (Cons call calls)
  obtain c' n now now2 where call: "call = (c', n, now, now2)" by (cases call) auto
  obtain r used' where v: "verifyPow P used c' n now now2 = (r, used')"
    by (cases "verifyPow P used c' n now now2") auto
  have t: "t \<le> now" "now \<le> now2" and ck: "clock_from now2 calls"
    using Cons.prems(1) call by auto
  have "(\<exists>x. used' c = Some x \<and> t0 \<le> x) \<or> now2 > t0 + POW_CHALLENGE_TTL * 2"
  proof (cases "\<exists>x. used c = Some x \<and> t0 \<le> x")
    case True
    then obtain x where x: "used c = Some x" "t0 \<le> x" by blast
    from verifyPow_entry[OF v x(1)] x(2) show ?thesis by auto
  next
    case False
    then have late: "t > t0 + POW_CHALLENGE_TTL * 2" using Cons.prems(2) by blast
    then show ?thesis using t by simp
  qed
  moreover have "t0 \<le> now2" using Cons.prems(3) t by simp
  ultimately show ?case
    using Cons.IH[OF ck, of used'] by (simp add: call v)
qed

text \<open>
  Claim C9 (PoW one-shot). Let \<open>verifyPow\<close> accept the challenge \<open>c\<close>, whose timestamp
  \<open>ts\<close> is not later than the clock reading at which it is marked used (a challenge is
  stamped with the clock when it is issued, and the clock does not run backwards).
  After any further calls of \<open>verifyPow\<close>, a call with \<open>c\<close> and any nonce at a time
  \<open>now\<close> within the TTL of \<open>c\<close> (\<open>now - ts \<le> 60\<close>) returns \<open>false\<close>: the challenge is
  still in the map of used challenges, since the purge drops an entry only when it is
  more than twice the TTL old.
\<close>

theorem pow_one_shot:
  assumes accepted: "verifyPow P used0 c n t1 t1' = (Inr True, used1)"
    and stamp: "challenge_timestamp P c = Some ts" "ts \<le> t1'"
    and clock: "clock_from t1' calls" "last_reading t1' calls \<le> now"
    and within: "now - ts \<le> POW_CHALLENGE_TTL"
  shows "fst (verifyPow P (verify_all P used1 calls) c n' now now2) = Inr False"
proof -
  have e: "used1 c = Some t1'" by (rule verifyPow_accept_entry[OF accepted])
  have "(\<exists>x. verify_all P used1 calls c = Some x \<and> t1' \<le> x)
         \<or> last_reading t1' calls > t1' + POW_CHALLENGE_TTL * 2"
    by (rule verify_all_entry[OF clock(1)]) (use e in auto)
  moreover have "\<not> last_reading t1' calls > t1' + POW_CHALLENGE_TTL * 2"
    using clock(2) within stamp(2) by (simp add: POW_CHALLENGE_TTL_def)
  ultimately have "verify_all P used1 calls c \<noteq> None" by auto
  then show ?thesis by (simp add: verifyPow_used)
qed

lemma test_challenge_accepted:
  "verifyPow test_platform Map.empty test_challenge ''n'' 101 101 =
     (Inr True, [test_challenge \<mapsto> 101])"
  by (simp add: verifyPow_def test_platform_def test_challenge_def lastIndexOf_def indexOf_def
      Let_def POW_CHALLENGE_TTL_def MAX_USED_CHALLENGES_def difficulty_def rep_numeral)

text \<open>
  The theorem on the challenge \<open>100:u:sig\<close>: accepted at second 101, presented again at
  second 130 (by another call first, then with a different nonce at second 150), it is
  rejected.
\<close>

theorem pow_one_shot_witness:
  "fst (verifyPow test_platform
          (verify_all test_platform [test_challenge \<mapsto> 101] [(test_challenge, ''n'', 130, 130)])
          test_challenge ''m'' 150 150) = Inr False"
proof -
  have s: "challenge_timestamp test_platform test_challenge = Some 100"
    by (simp add: challenge_timestamp_def test_platform_def test_challenge_def lastIndexOf_def
        indexOf_def Let_def)
  show ?thesis
    by (rule pow_one_shot[OF test_challenge_accepted s])
       (simp_all add: POW_CHALLENGE_TTL_def)
qed

section \<open>Properties of the multipart upload\<close>

lemma mergeChunks_loop_eq:
  assumes "length m \<le> n" and "filled \<longrightarrow> length m = n"
  shows "fst (mergeChunks_loop n cs m rem filled) =
           take n (m @ concat cs) @ replicate (n - length (m @ concat cs)) 0 \<and>
         concat (snd (mergeChunks_loop n cs m rem filled)) =
           concat rem @ drop (n - length m) (concat cs)"
  using assms
proof (induction cs arbitrary: m rem filled)
  case Nil
  then show ?case by simp
next
  case (Cons c cs)
  show ?case
  proof (cases filled)
    case True
    then have lm: "length m = n" using Cons.prems by simp
    show ?thesis using True lm Cons.IH[of m True "rem @ [c]"] by simp
  next
    case False
    show ?thesis
    proof (cases "length c \<le> n - length m")
      case True
      have "length (m @ c) \<le> n" using True Cons.prems(1) by simp
      from Cons.IH[OF this, of "length m + length c = n" rem] True False Cons.prems(1)
      show ?thesis by (simp add: Let_def)
    next
      case nf: False
      have l: "length (m @ take (n - length m) c) = n" using nf Cons.prems(1) by simp
      from Cons.IH[of "m @ take (n - length m) c" True "rem @ [drop (n - length m) c]"] l
      have ih: "fst (mergeChunks_loop n cs (m @ take (n - length m) c)
                      (rem @ [drop (n - length m) c]) True) =
                  take n ((m @ take (n - length m) c) @ concat cs) @
                    replicate (n - length ((m @ take (n - length m) c) @ concat cs)) 0"
        "concat (snd (mergeChunks_loop n cs (m @ take (n - length m) c)
                      (rem @ [drop (n - length m) c]) True)) =
           concat (rem @ [drop (n - length m) c]) @ concat cs"
        by simp_all
      have t1: "take n ((m @ take (n - length m) c) @ concat cs) = m @ take (n - length m) c"
        using l by simp
      have t2: "take n (m @ concat (c # cs)) = m @ take (n - length m) c"
        using nf Cons.prems(1) by simp
      show ?thesis using nf False ih t1 t2 l Cons.prems(1) by (simp add: Let_def)
    qed
  qed
qed

lemma mergeChunks_enough:
  assumes "n \<le> length (concat cs)"
  shows "fst (mergeChunks cs n) = take n (concat cs)"
    and "concat (snd (mergeChunks cs n)) = drop n (concat cs)"
  using mergeChunks_loop_eq[of "[]" n False cs "[]"] assms by (simp_all add: mergeChunks_def)

lemma all_parts_await [simp]: "all_parts (await_pending st) = all_parts st"
  by (simp add: await_pending_def all_parts_def split: option.splits)

lemma await_pending_fields [simp]:
  "pendingUpload (await_pending st) = None"
  "chunks (await_pending st) = chunks st"
  "bufferSize (await_pending st) = bufferSize st"
  "partNum (await_pending st) = partNum st"
  by (simp_all add: await_pending_def split: option.splits)

lemma parts_await: "parts (await_pending st) = all_parts st"
  by (simp add: await_pending_def all_parts_def split: option.splits)

lemma upload_inv_await: "upload_inv P body (await_pending st) = upload_inv P body st"
  by (simp add: upload_inv_def)

lemma upt_snoc: "1 \<le> n \<Longrightarrow> [1..<n] @ [n] = [1..<n + 1]"
  by simp

lemma upload_one_inv:
  assumes "upload_inv P body st" and "pendingUpload st = None" and "P \<le> bufferSize st"
  shows "upload_inv P body (upload_one P st)" and "pendingUpload (upload_one P st) = None"
    and "bufferSize (upload_one P st) = bufferSize st - P"
proof -
  obtain merged remaining where mc: "mergeChunks (chunks st) P = (merged, remaining)"
    by (cases "mergeChunks (chunks st) P") auto
  have le: "P \<le> length (concat (chunks st))" using assms(1,3) by (simp add: upload_inv_def)
  have m: "merged = take P (concat (chunks st))"
    and r: "concat remaining = drop P (concat (chunks st))"
    using mergeChunks_enough[OF le] mc by simp_all
  have u: "upload_one P st = st\<lparr> chunks := remaining, bufferSize := bufferSize st - P,
               parts := parts st @ [(partNum st, merged)], partNum := partNum st + 1 \<rparr>"
    by (simp add: upload_one_def mc)
  have ap: "all_parts (upload_one P st) = all_parts st @ [(partNum st, merged)]"
    using assms(2) by (simp add: u all_parts_def)
  show "upload_inv P body (upload_one P st)"
    using assms(1) le unfolding upload_inv_def ap
    by (simp add: u m r min_absorb2)
  show "pendingUpload (upload_one P st) = None" using assms(2) by (simp add: u)
  show "bufferSize (upload_one P st) = bufferSize st - P" by (simp add: u)
qed

lemma upload_while_inv:
  assumes "upload_inv P body st" and "pendingUpload st = None"
  shows "upload_inv P body (upload_while P limit st) \<and>
         pendingUpload (upload_while P limit st) = None \<and>
         (0 < P \<and> P \<le> limit \<longrightarrow> bufferSize (upload_while P limit st) < limit)"
  using assms
proof (induction P limit st rule: upload_while.induct)
  case (1 partSize limit st)
  show ?case
  proof (cases "0 < partSize \<and> partSize \<le> limit \<and> bufferSize st \<ge> limit")
    case True
    then have le: "partSize \<le> bufferSize st" by simp
    note u = upload_one_inv[OF "1.prems"(1,2) le]
    from "1.IH"[OF True u(1) u(2)] True show ?thesis
      by (subst (1 2 3) upload_while.simps) simp
  next
    case False
    then show ?thesis using "1.prems"
      by (subst (1 2 3) upload_while.simps) auto
  qed
qed

lemma flushBuffer_inv:
  assumes "upload_inv P body st"
  shows "upload_inv P body (flushBuffer P st)"
proof -
  define s1 where "s1 = upload_while P (P * 2) (await_pending st)"
  have i1: "upload_inv P body s1" and p1: "pendingUpload s1 = None"
    using upload_while_inv[of P body "await_pending st" "P * 2"] assms
    by (simp_all add: s1_def upload_inv_await)
  show ?thesis
  proof (cases "P \<le> bufferSize s1")
    case False
    then show ?thesis using i1 by (simp add: flushBuffer_def Let_def s1_def[symmetric])
  next
    case True
    obtain merged remaining where mc: "mergeChunks (chunks s1) P = (merged, remaining)"
      by (cases "mergeChunks (chunks s1) P") auto
    have le: "P \<le> length (concat (chunks s1))" using i1 True by (simp add: upload_inv_def)
    have m: "merged = take P (concat (chunks s1))"
      and r: "concat remaining = drop P (concat (chunks s1))"
      using mergeChunks_enough[OF le] mc by simp_all
    have f: "flushBuffer P st = s1\<lparr> chunks := remaining, bufferSize := bufferSize s1 - P,
                     pendingUpload := Some (partNum s1, merged), partNum := partNum s1 + 1 \<rparr>"
      using True by (simp add: flushBuffer_def Let_def s1_def[symmetric] mc)
    have ap: "all_parts (flushBuffer P st) = all_parts s1 @ [(partNum s1, merged)]"
      using p1 by (simp add: f all_parts_def)
    show ?thesis using i1 le unfolding upload_inv_def ap
      by (simp add: f m r min_absorb2)
  qed
qed

lemma read_loop_inv:
  assumes "upload_inv P body st"
  shows "case read_loop P st events of
           Inl (err, st') \<Rightarrow> \<exists>b. upload_inv P b st'
         | Inr st' \<Rightarrow> upload_inv P (body @ body_bytes events) st'"
  using assms
proof (induction P st events arbitrary: body rule: read_loop.induct)
  case (4 partSize st v events)
  define s0 where "s0 = st\<lparr> downloaded := downloaded st + length v \<rparr>"
  define s1 where "s1 = s0\<lparr> chunks := chunks s0 @ [v], bufferSize := bufferSize s0 + length v \<rparr>"
  define s2 where "s2 = (if bufferSize s1 \<ge> partSize then flushBuffer partSize s1 else s1)"
  have i0: "upload_inv partSize body s0"
    using "4.prems" by (simp add: s0_def upload_inv_def all_parts_def)
  have i1: "upload_inv partSize (body @ v) s1"
    using i0 by (simp add: s1_def upload_inv_def all_parts_def)
  have i2: "upload_inv partSize (body @ v) s2"
    using i1 flushBuffer_inv[OF i1] by (simp add: s2_def)
  show ?case
  proof (cases "downloaded s0 > MAX_DOWNLOAD_SIZE")
    case True
    then show ?thesis using i0 by (auto simp: Let_def s0_def[symmetric])
  next
    case False
    have eq: "read_loop partSize st (Chunk v # events) = read_loop partSize s2 events"
      using False by (simp add: Let_def s0_def[symmetric] s1_def[symmetric] s2_def[symmetric])
    have ih: "case read_loop partSize s2 events of
           Inl (err, st') \<Rightarrow> \<exists>b. upload_inv partSize b st'
         | Inr st' \<Rightarrow> upload_inv partSize ((body @ v) @ body_bytes events) st'"
      using "4.IH"[OF s0_def _ s1_def s2_def i2] False by simp
    show ?thesis unfolding eq using ih
      by (cases "read_loop partSize s2 events") auto
  qed
qed auto

lemma numbered_length:
  assumes "map fst xs = [1..<n]" and "1 \<le> n"
  shows "length xs = n - 1" and "map fst xs = [1..<Suc (length xs)]"
proof -
  have "length (map fst xs) = length [1..<n]" using assms(1) by simp
  then show l: "length xs = n - 1" by simp
  show "map fst xs = [1..<Suc (length xs)]" using assms l by simp
qed

lemma finish_upload_parts:
  assumes "upload_inv P body st" and "0 < P"
  shows "map fst (parts (finish_upload P st)) = [1..<Suc (length (parts (finish_upload P st)))]"
    and "\<forall>i. Suc i < length (parts (finish_upload P st)) \<longrightarrow>
           length (snd (parts (finish_upload P st) ! i)) = P"
    and "concat (map snd (parts (finish_upload P st))) = body"
    and "parts (finish_upload P st) \<noteq> [] \<longrightarrow>
           0 < length (snd (last (parts (finish_upload P st)))) \<and>
           length (snd (last (parts (finish_upload P st)))) \<le> P"
proof -
  define s2 where "s2 = upload_while P P (await_pending st)"
  have i2: "upload_inv P body s2" and p2: "pendingUpload s2 = None"
    and b2: "bufferSize s2 < P"
    using upload_while_inv[of P body "await_pending st" P] assms
    by (simp_all add: s2_def upload_inv_await)
  have ap: "all_parts s2 = parts s2" using p2 by (simp add: all_parts_def)
  have nums: "map fst (parts s2) = [1..<partNum s2]" and one: "1 \<le> partNum s2"
    and full: "list_all (\<lambda>p. length (snd p) = P) (parts s2)"
    and bs: "bufferSize s2 = length (concat (chunks s2))"
    and cat: "concat (map snd (parts s2)) @ concat (chunks s2) = body"
    using i2 unfolding upload_inv_def ap by simp_all
  note nl = numbered_length[OF nums one]
  show "map fst (parts (finish_upload P st)) = [1..<Suc (length (parts (finish_upload P st)))]"
  proof (cases "bufferSize s2 > 0")
    case True
    then have fp: "parts (finish_upload P st) =
                     parts s2 @ [(partNum s2, mergeAll (chunks s2) (bufferSize s2))]"
      by (simp add: finish_upload_def Let_def s2_def[symmetric])
    have "Suc (length (parts s2)) = partNum s2" using nl(1) one by simp
    then show ?thesis unfolding fp using nums one by simp
  next
    case False
    then have "parts (finish_upload P st) = parts s2"
      by (simp add: finish_upload_def Let_def s2_def[symmetric])
    then show ?thesis using nl(2) by simp
  qed
  show "\<forall>i. Suc i < length (parts (finish_upload P st)) \<longrightarrow>
           length (snd (parts (finish_upload P st) ! i)) = P"
    using full by (auto simp: finish_upload_def Let_def s2_def[symmetric] nth_append
        list_all_length)
  show "concat (map snd (parts (finish_upload P st))) = body"
    using cat bs by (auto simp: finish_upload_def Let_def s2_def[symmetric] mergeAll_def)
  show "parts (finish_upload P st) \<noteq> [] \<longrightarrow>
           0 < length (snd (last (parts (finish_upload P st)))) \<and>
           length (snd (last (parts (finish_upload P st)))) \<le> P"
  proof -
    have lastfull: "parts s2 \<noteq> [] \<Longrightarrow> length (snd (last (parts s2))) = P"
      using full by (metis (mono_tags, lifting) last_in_set list_all_iff)
    show ?thesis
    proof (cases "bufferSize s2 > 0")
      case True
      then show ?thesis using b2 bs
        by (simp add: finish_upload_def Let_def s2_def[symmetric] mergeAll_def)
    next
      case False
      then have "parts (finish_upload P st) = parts s2"
        by (simp add: finish_upload_def Let_def s2_def[symmetric])
      then show ?thesis using lastfull assms(2) by simp
    qed
  qed
qed

lemma initial_upload_inv: "upload_inv P [] initial_upload"
  by (simp add: upload_inv_def initial_upload_def all_parts_def)

lemma streamToR2_with_parts:
  assumes "0 < P"
  shows "map fst (uploaded (streamToR2_with P events)) =
           [1..<Suc (length (uploaded (streamToR2_with P events)))]"
    and "\<forall>i. Suc i < length (uploaded (streamToR2_with P events)) \<longrightarrow>
           length (snd (uploaded (streamToR2_with P events) ! i)) = P"
    and "\<forall>ps. completed (streamToR2_with P events) = Some ps \<longrightarrow>
           ps = uploaded (streamToR2_with P events) \<and>
           concat (map snd ps) = body_bytes events \<and>
           (ps \<noteq> [] \<longrightarrow> 0 < length (snd (last ps)) \<and> length (snd (last ps)) \<le> P)"
proof -
  note rl = read_loop_inv[OF initial_upload_inv, of P events]
  show "map fst (uploaded (streamToR2_with P events)) =
           [1..<Suc (length (uploaded (streamToR2_with P events)))]"
  proof (cases "read_loop P initial_upload events")
    case (Inl a)
    obtain err st' where a: "a = (err, st')" by (cases a) auto
    from rl Inl a obtain b where i: "upload_inv P b st'" by auto
    then have "map fst (all_parts st') = [1..<partNum st']" "1 \<le> partNum st'"
      by (simp_all add: upload_inv_def)
    from numbered_length(2)[OF this] show ?thesis
      by (simp add: streamToR2_with_def Inl a parts_await)
  next
    case (Inr st')
    with rl have i: "upload_inv P (body_bytes events) st'" by simp
    from finish_upload_parts(1)[OF i assms] show ?thesis
      by (simp add: streamToR2_with_def Inr Let_def)
  qed
  show "\<forall>i. Suc i < length (uploaded (streamToR2_with P events)) \<longrightarrow>
           length (snd (uploaded (streamToR2_with P events) ! i)) = P"
  proof (cases "read_loop P initial_upload events")
    case (Inl a)
    obtain err st' where a: "a = (err, st')" by (cases a) auto
    from rl Inl a obtain b where i: "upload_inv P b st'" by auto
    then have "list_all (\<lambda>p. length (snd p) = P) (all_parts st')"
      by (simp add: upload_inv_def)
    then show ?thesis
      by (simp add: streamToR2_with_def Inl a parts_await list_all_length)
  next
    case (Inr st')
    with rl have i: "upload_inv P (body_bytes events) st'" by simp
    from finish_upload_parts(2)[OF i assms] show ?thesis
      by (simp add: streamToR2_with_def Inr Let_def)
  qed
  show "\<forall>ps. completed (streamToR2_with P events) = Some ps \<longrightarrow>
           ps = uploaded (streamToR2_with P events) \<and>
           concat (map snd ps) = body_bytes events \<and>
           (ps \<noteq> [] \<longrightarrow> 0 < length (snd (last ps)) \<and> length (snd (last ps)) \<le> P)"
  proof (cases "read_loop P initial_upload events")
    case (Inl a)
    then show ?thesis by (simp add: streamToR2_with_def split: prod.splits)
  next
    case (Inr st')
    with rl have i: "upload_inv P (body_bytes events) st'" by simp
    note f = finish_upload_parts[OF i assms]
    have srt: "sort_key fst (parts (finish_upload P st')) = parts (finish_upload P st')"
      by (rule sort_key_id_if_sorted) (simp add: f(1) del: upt_Suc)
    show ?thesis using f(3,4)
      by (simp add: streamToR2_with_def Inr Let_def srt)
  qed
qed

text \<open>
  Claim C4 (multipart part sizing and ordering). For every run of \<open>streamToR2\<close>, whether
  it completes or fails: the uploaded parts carry the part numbers 1, 2, ... in the
  order of their upload, and every uploaded part but the last, which has the highest
  part number, holds exactly 25 MiB. When the upload is completed, the list passed to
  the completion call is the list of the uploaded parts, numbered 1, 2, ... without a
  gap, and the parts in this order are the bytes of the body.
\<close>

theorem multipart_part_sizing_and_ordering:
  "map fst (uploaded (streamToR2 events)) = [1..<Suc (length (uploaded (streamToR2 events)))] \<and>
   (\<forall>i. Suc i < length (uploaded (streamToR2 events)) \<longrightarrow>
        length (snd (uploaded (streamToR2 events) ! i)) = 25 * 1024 * 1024) \<and>
   (\<forall>ps. completed (streamToR2 events) = Some ps \<longrightarrow>
        map fst ps = [1..<Suc (length ps)] \<and> ps = uploaded (streamToR2 events) \<and>
        concat (map snd ps) = body_bytes events)"
proof -
  have p: "0 < UPLOAD_PART_SIZE" by (simp add: UPLOAD_PART_SIZE_def)
  note s = streamToR2_with_parts[OF p, of events]
  have "\<forall>i. Suc i < length (uploaded (streamToR2 events)) \<longrightarrow>
        length (snd (uploaded (streamToR2 events) ! i)) = 25 * 1024 * 1024"
    using s(2) by (simp add: streamToR2_def UPLOAD_PART_SIZE_def)
  moreover have "\<forall>ps. completed (streamToR2 events) = Some ps \<longrightarrow>
        map fst ps = [1..<Suc (length ps)] \<and> ps = uploaded (streamToR2 events) \<and>
        concat (map snd ps) = body_bytes events"
    using s(1,3) by (auto simp: streamToR2_def)
  ultimately show ?thesis using s(1) by (simp add: streamToR2_def)
qed

lemma two_part_upload:
  "streamToR2 two_part_body =
     \<lparr> uploaded = [(1, replicate 26214400 7), (2, [1, 2, 3])],
       completed = Some [(1, replicate 26214400 7), (2, [1, 2, 3])],
       failure = None \<rparr>"
  by (simp add: streamToR2_def streamToR2_with_def two_part_body_def UPLOAD_PART_SIZE_def
      MAX_DOWNLOAD_SIZE_def initial_upload_def flushBuffer_def await_pending_def
      upload_while.simps upload_one_def mergeChunks_def mergeAll_def finish_upload_def Let_def)

text \<open>
  The theorem on a body of 25 MiB and three bytes: two parts are uploaded, the first
  holds 25 MiB, and the completion call gets the part numbers 1 and 2.
\<close>

theorem multipart_part_sizing_and_ordering_witness:
  "length (uploaded (streamToR2 two_part_body)) = 2 \<and>
   length (snd (uploaded (streamToR2 two_part_body) ! 0)) = 26214400 \<and>
   map fst (the (completed (streamToR2 two_part_body))) = [1, 2]"
proof -
  have l: "length (uploaded (streamToR2 two_part_body)) = 2"
    by (simp add: two_part_upload)
  have c: "completed (streamToR2 two_part_body) = Some (uploaded (streamToR2 two_part_body))"
    by (simp add: two_part_upload)
  from multipart_part_sizing_and_ordering[of two_part_body] l c
  have "length (snd (uploaded (streamToR2 two_part_body) ! 0)) = 25 * 1024 * 1024"
    and "map fst (uploaded (streamToR2 two_part_body)) = [1..<Suc 2]"
    by auto
  then show ?thesis using l c by (simp add: upt_rec)
qed

section \<open>Properties of the task store\<close>

subsection \<open>What each operation does to the records\<close>

lemma saveTask_view:
  "loadTask (saveTask s t) = (loadTask s)(task_id t \<mapsto> t)"
  "r2keys (saveTask s t) = r2keys s"
  "account_index (saveTask s t) = account_index s"
  "abortControllers (saveTask s t) = abortControllers s"
  "bucket (saveTask s t) = bucket s"
  by (auto simp: saveTask_def loadTask_def account_index_def AList.update_conv' fun_eq_iff)

lemma addToAccountIndex_view:
  "loadTask (addToAccountIndex s h i) = loadTask s"
  "r2keys (addToAccountIndex s h i) = r2keys s"
  "abortControllers (addToAccountIndex s h i) = abortControllers s"
  "set (account_index (addToAccountIndex s h i) h') =
     (if h' = h then insert i (set (account_index s h)) else set (account_index s h'))"
  by (auto simp: addToAccountIndex_def loadTask_def account_index_def AList.update_conv' Let_def
      fun_eq_iff)

lemma removeFromAccountIndex_view:
  "loadTask (removeFromAccountIndex s h i) = loadTask s"
  "r2keys (removeFromAccountIndex s h i) = r2keys s"
  "abortControllers (removeFromAccountIndex s h i) = abortControllers s"
  "bucket (removeFromAccountIndex s h i) = bucket s"
  "set (account_index (removeFromAccountIndex s h i) h') =
     (if h' = h then set (account_index s h) - {i} else set (account_index s h'))"
  by (auto simp: removeFromAccountIndex_def loadTask_def account_index_def AList.update_conv'
      Let_def fun_eq_iff)

lemma loadTask_update:
  "loadTask (s\<lparr> tasks := AList.delete i (tasks s) \<rparr>) = (loadTask s)(i := None)"
  "loadTask (s\<lparr> r2keys := r \<rparr>) = loadTask s"
  "loadTask (s\<lparr> abortControllers := c \<rparr>) = loadTask s"
  "loadTask (s\<lparr> bucket := b \<rparr>) = loadTask s"
  by (simp_all add: loadTask_def AList.delete_conv' fun_eq_iff)

lemma account_index_update:
  "account_index (s\<lparr> tasks := ts \<rparr>) = account_index s"
  "account_index (s\<lparr> r2keys := r \<rparr>) = account_index s"
  "account_index (s\<lparr> abortControllers := c \<rparr>) = account_index s"
  "account_index (s\<lparr> bucket := b \<rparr>) = account_index s"
  by (simp_all add: account_index_def fun_eq_iff)

lemma deleteR2Files_view:
  "loadTask (deleteR2Files s i h k t) = loadTask s"
  "tasks (deleteR2Files s i h k t) = tasks s"
  "r2keys (deleteR2Files s i h k t) = r2keys s"
  "account_index (deleteR2Files s i h k t) = account_index s"
  "abortControllers (deleteR2Files s i h k t) = abortControllers s"
  "set (bucket (deleteR2Files s i h k t)) \<subseteq> set (bucket s)"
  by (auto simp: deleteR2Files_def bucket_delete_def Let_def loadTask_def account_index_def
      fun_eq_iff split: option.splits)

lemma purgeTask_view:
  "loadTask (purgeTask s i h k t) = (loadTask s)(i := None)"
  "map_of (r2keys (purgeTask s i h k t)) = (map_of (r2keys s))(i := None)"
  "abortControllers (purgeTask s i h k t) = abortControllers s - {i}"
  "set (account_index (purgeTask s i h k t) h') =
     (if h' = h then set (account_index s h) - {i} else set (account_index s h'))"
  "set (bucket (purgeTask s i h k t)) \<subseteq> set (bucket s)"
proof -
  define s1 where "s1 = deleteR2Files (s\<lparr> abortControllers := abortControllers s - {i} \<rparr>) i h k t"
  define s2 where "s2 = s1\<lparr> tasks := AList.delete i (tasks s1) \<rparr>"
  define s3 where "s3 = s2\<lparr> r2keys := AList.delete i (r2keys s2) \<rparr>"
  have p: "purgeTask s i h k t = removeFromAccountIndex s3 h i"
    by (simp add: purgeTask_def Let_def s1_def s2_def s3_def)
  have l1: "loadTask s1 = loadTask s" "r2keys s1 = r2keys s" "account_index s1 = account_index s"
    "abortControllers s1 = abortControllers s - {i}" "set (bucket s1) \<subseteq> set (bucket s)"
    using deleteR2Files_view(6)[of "s\<lparr> abortControllers := abortControllers s - {i} \<rparr>" i h k t]
    by (simp_all add: s1_def deleteR2Files_view loadTask_update account_index_update)
  have l3: "loadTask s3 = (loadTask s)(i := None)"
    "map_of (r2keys s3) = (map_of (r2keys s))(i := None)"
    "account_index s3 = account_index s" "abortControllers s3 = abortControllers s - {i}"
    "bucket s3 = bucket s1"
    by (simp_all add: s3_def s2_def loadTask_update account_index_update l1 AList.delete_conv')
  show "loadTask (purgeTask s i h k t) = (loadTask s)(i := None)"
    by (simp add: p removeFromAccountIndex_view l3)
  show "map_of (r2keys (purgeTask s i h k t)) = (map_of (r2keys s))(i := None)"
    by (simp add: p removeFromAccountIndex_view l3)
  show "abortControllers (purgeTask s i h k t) = abortControllers s - {i}"
    by (simp add: p removeFromAccountIndex_view l3)
  show "set (account_index (purgeTask s i h k t) h') =
     (if h' = h then set (account_index s h) - {i} else set (account_index s h'))"
    by (simp add: p removeFromAccountIndex_view l3)
  show "set (bucket (purgeTask s i h k t)) \<subseteq> set (bucket s)"
    using l1(5) by (simp add: p removeFromAccountIndex_view l3)
qed

lemma startDownload_begin_view:
  "loadTask (fst (startDownload_begin s t)) = (loadTask s)(task_id t \<mapsto> snd (startDownload_begin s t))"
  "r2keys (fst (startDownload_begin s t)) = r2keys s"
  "account_index (fst (startDownload_begin s t)) = account_index s"
  "abortControllers (fst (startDownload_begin s t)) = insert (task_id t) (abortControllers s)"
  "snd (startDownload_begin s t) =
     t\<lparr> status := Downloading, progress := 0, speed := ''0 B/s'', task_error := None \<rparr>"
  by (auto simp: startDownload_begin_def Let_def saveTask_view saveTask_def loadTask_def
      account_index_def AList.update_conv' fun_eq_iff)

subsection \<open>Sanitization\<close>

lemma sanitize_absent: "secrets_absent (sanitize t hasFile fileSize)"
  by (auto simp: secrets_absent_def sanitize_def split: option.splits)

lemma createTask_absent:
  "createTask parseURL s params newId now = Inr (s', out) \<Longrightarrow> secrets_absent out"
  by (auto simp: createTask_def Let_def sanitize_absent
      split: sum.splits if_splits prod.splits)

lemma getTask_absent: "getTask s i h = Some out \<Longrightarrow> secrets_absent out"
  by (auto simp: getTask_def Let_def sanitize_absent split: option.splits if_splits)

lemma listTasks_absent: "out \<in> set (listTasks s hs) \<Longrightarrow> secrets_absent out"
  by (auto simp: listTasks_def Let_def sanitize_absent split: option.splits)

lemma getTaskPublic_absent: "getTaskPublic s i = Some out \<Longrightarrow> secrets_absent out"
  by (auto simp: getTaskPublic_def Let_def secrets_absent_def split: option.splits if_splits)

lemma createTask_test:
  "createTask test_parseURL empty_store test_params ''t1'' 1000 =
     Inr (store_created, sanitize test_task False None)"
  by (simp add: createTask_def validateDownloadURL_def test_parseURL_def test_params_def
      ALLOWED_DOWNLOAD_RE_def ci_char_def is_dotted_quad_def is_digit_def
      MIN_ACCOUNT_HASH_LENGTH_def account_index_def empty_store_def Let_def saveTask_def
      addToAccountIndex_def startDownload_begin_def store_created_def test_task_def)

lemma download_complete_test:
  "download_complete (upload_completed store_created test_task 3) test_task = store_completed"
  by (simp add: download_complete_def upload_completed_def store_created_def test_task_def
      store_completed_def computed_key_def saveTask_def test_software_def Let_def)

lemma getTask_test:
  "getTask store_completed ''t1'' ''account1'' =
     Some (sanitize (test_task\<lparr> status := Completed, progress := 100, downloadURL := [],
                                sinfs := [] \<rparr>) True (Some 3))"
  by (simp add: getTask_def loadTask_def store_completed_def test_task_def head_of_def
      truthy_def head_object_def Let_def)

lemma listTasks_test:
  "listTasks store_completed [''account1''] =
     [sanitize (test_task\<lparr> status := Completed, progress := 100, downloadURL := [],
                           sinfs := [] \<rparr>) True (Some 3)]"
  by (simp add: listTasks_def loadTask_def store_completed_def test_task_def head_of_def
      truthy_def head_object_def Let_def account_index_def)

lemma getTaskPublic_test:
  "getTaskPublic store_completed ''t1'' =
     Some [(''software'', software_json test_software), (''hasFile'', JBool True)]"
  by (simp add: getTaskPublic_def loadTask_def store_completed_def test_task_def
      truthy_def head_object_def Let_def)

text \<open>
  Claim C3 (sanitization boundary). The record returned by \<open>createTask\<close>, by \<open>getTask\<close>,
  each record returned by \<open>listTasks\<close> and the record returned by \<open>getTaskPublic\<close> has none
  of the properties \<open>downloadURL\<close>, \<open>sinfs\<close>, \<open>iTunesMetadata\<close>, \<open>filePath\<close>, for every state
  of the store (reachable or not), every stored task and every argument.
\<close>

theorem sanitization_boundary:
  "(createTask parseURL s params newId now = Inr (s', out1) \<longrightarrow> secrets_absent out1) \<and>
   (getTask s i h = Some out2 \<longrightarrow> secrets_absent out2) \<and>
   (\<forall>out \<in> set (listTasks s hs). secrets_absent out) \<and>
   (getTaskPublic s i = Some out3 \<longrightarrow> secrets_absent out3)"
  using createTask_absent getTask_absent listTasks_absent getTaskPublic_absent by blast

text \<open>
  The theorem on the task \<open>t1\<close>: the record \<open>createTask\<close> returns for it, and the records
  the three reading methods return once it is completed.
\<close>

theorem sanitization_boundary_witness:
  "secrets_absent (sanitize test_task False None) \<and>
   secrets_absent (sanitize (test_task\<lparr> status := Completed, progress := 100,
                                          downloadURL := [], sinfs := [] \<rparr>) True (Some 3)) \<and>
   secrets_absent [(''software'', software_json test_software), (''hasFile'', JBool True)]"
proof -
  have a: "secrets_absent (sanitize test_task False None)"
    using sanitization_boundary[of test_parseURL empty_store test_params "''t1''" 1000
        store_created "sanitize test_task False None"]
    by (simp add: createTask_test)
  have b: "secrets_absent (sanitize (test_task\<lparr> status := Completed, progress := 100,
                                          downloadURL := [], sinfs := [] \<rparr>) True (Some 3))"
    using sanitization_boundary[of _ store_completed _ _ _ _ _ "''t1''" "''account1''" _
        "[''account1'']"]
    by (simp add: getTask_test listTasks_test)
  have c: "secrets_absent [(''software'', software_json test_software), (''hasFile'', JBool True)]"
    using sanitization_boundary[of _ store_completed _ _ _ _ _ "''t1''"]
    by (simp add: getTaskPublic_test)
  from a b c show ?thesis by simp
qed

subsection \<open>Writes of a pipeline after its cancellation\<close>

lemma deleteTask_purge:
  "fst (deleteTask s i h) =
     (case loadTask s i of
        None \<Rightarrow> s
      | Some t \<Rightarrow> if accountHash t \<noteq> h then s
                  else purgeTask s i h (map_of (r2keys s) i) (Some t))"
  by (simp add: deleteTask_def purgeTask_def Let_def split: option.splits)


lemma download_complete_view:
  "loadTask (download_complete s t) =
     (loadTask s)(task_id t \<mapsto> t\<lparr> status := Completed, progress := 100, downloadURL := [],
                                     sinfs := [], iTunesMetadata := None \<rparr>)"
  "map_of (r2keys (download_complete s t)) =
     (map_of (r2keys s))(task_id t \<mapsto>
        computed_key (accountHash t) (bundleID (software t)) (task_id t))"
  "account_index (download_complete s t) = account_index s"
  "abortControllers (download_complete s t) = abortControllers s - {task_id t}"
  by (simp_all add: download_complete_def Let_def saveTask_def loadTask_def account_index_def
      AList.update_conv' fun_eq_iff)


lemma download_failed_view:
  "loadTask (download_failed s t msg) =
     (loadTask s)(task_id t \<mapsto> t\<lparr> status := Failed, task_error := Some msg \<rparr>)"
  "r2keys (download_failed s t msg) = r2keys s"
  "account_index (download_failed s t msg) = account_index s"
  "abortControllers (download_failed s t msg) = abortControllers s - {task_id t}"
  by (simp_all add: download_failed_def Let_def saveTask_def loadTask_def account_index_def
      AList.update_conv' fun_eq_iff)


lemma deleteTask_test:
  "fst (deleteTask store_completed ''t1'' ''account1'') =
     \<lparr> tasks = [], r2keys = [], accounts = [(''account1'', [])], abortControllers = {},
       bucket = [] \<rparr>"
  by (simp add: deleteTask_def loadTask_def store_completed_def test_task_def Let_def
      deleteR2Files_def truthy_def computed_key_def test_software_def bucket_delete_def
      removeFromAccountIndex_def account_index_def)


lemma pauseTask_test: "pauseTask store_created ''t1'' ''account1'' = (store_paused, True)"
  by (simp add: pauseTask_def loadTask_def store_created_def test_task_def saveTask_def
      store_paused_def Let_def)

lemma resumeTask_test: "resumeTask store_paused ''t1'' ''account1'' = (store_created, True)"
  by (simp add: resumeTask_def loadTask_def store_paused_def test_task_def saveTask_def
      startDownload_begin_def store_created_def Let_def)

lemma first_pipeline_completes:
  "download_complete
     (download_injecting (upload_completed store_created test_task 3) test_task)
     (test_task\<lparr> status := Injecting, progress := 100 \<rparr>) = store_completed"
  by (simp add: download_complete_def download_injecting_def upload_completed_def
      store_created_def test_task_def store_completed_def computed_key_def saveTask_def
      test_software_def Let_def)

lemma second_pipeline_reports:
  "download_progress store_completed test_task ''1.0 MB/s'' 50 = store_stale"
  by (simp add: download_progress_def store_completed_def test_task_def store_stale_def
      saveTask_def)

text \<open>
  Claim C7 (completed if and only if keyed) on a run of the code. The task \<open>t1\<close> is
  created; it is paused while its pipeline awaits \<open>upload.complete\<close>, and resumed, which
  starts a second pipeline on the task object \<open>resumeTask\<close> loaded. The first pipeline
  goes on (nothing after the read loop tests the signal): the object is in the blob
  store, the task is saved as \<open>injecting\<close>, then as \<open>completed\<close>, \<open>r2key:t1\<close> is written and
  the controller under \<open>t1\<close>, the second pipeline's, is dropped. The progress report of
  the second pipeline then saves its own object: \<open>task:t1\<close> is \<open>downloading\<close> while
  \<open>r2key:t1\<close> exists, and the equivalence does not hold.
\<close>

theorem keyed_broken_by_stale_write:
  "createTask test_parseURL empty_store test_params ''t1'' 1000 =
     Inr (store_created, sanitize test_task False None) \<and>
   pauseTask store_created ''t1'' ''account1'' = (store_paused, True) \<and>
   resumeTask store_paused ''t1'' ''account1'' = (store_created, True) \<and>
   download_complete
     (download_injecting (upload_completed store_created test_task 3) test_task)
     (test_task\<lparr> status := Injecting, progress := 100 \<rparr>) = store_completed \<and>
   download_progress store_completed test_task ''1.0 MB/s'' 50 = store_stale \<and>
   map_of (r2keys store_stale) ''t1'' = Some ''packages/account1/com.example.app/t1.ipa'' \<and>
   loadTask store_stale ''t1'' = Some (test_task\<lparr> speed := ''1.0 MB/s'', progress := 50 \<rparr>) \<and>
   status (test_task\<lparr> speed := ''1.0 MB/s'', progress := 50 \<rparr>) = Downloading \<and>
   \<not> completed_iff_keyed store_stale"
proof -
  have k: "map_of (r2keys store_stale) ''t1'' = Some ''packages/account1/com.example.app/t1.ipa''"
    by (simp add: store_stale_def)
  have l: "loadTask store_stale ''t1'' = Some (test_task\<lparr> speed := ''1.0 MB/s'', progress := 50 \<rparr>)"
    by (simp add: store_stale_def loadTask_def)
  have d: "status (test_task\<lparr> speed := ''1.0 MB/s'', progress := 50 \<rparr>) = Downloading"
    by (simp add: test_task_def)
  have "\<not> completed_iff_keyed store_stale"
  proof
    assume "completed_iff_keyed store_stale"
    then have "(map_of (r2keys store_stale) ''t1'' \<noteq> None) =
                 (\<exists>t. loadTask store_stale ''t1'' = Some t \<and> status t = Completed)"
      unfolding completed_iff_keyed_def by (rule allE)
    then show False using k l d by simp
  qed
  then show ?thesis
    using createTask_test pauseTask_test resumeTask_test first_pipeline_completes
      second_pipeline_reports k l d by simp
qed

lemma deleted_store:
  "fst (deleteTask store_created ''t1'' ''account1'') =
     \<lparr> tasks = [], r2keys = [], accounts = [(''account1'', [])], abortControllers = {},
       bucket = [] \<rparr>"
  by (simp add: deleteTask_def loadTask_def store_created_def test_task_def Let_def
      deleteR2Files_def truthy_def computed_key_def test_software_def bucket_delete_def
      removeFromAccountIndex_def account_index_def)

lemma createTask_again:
  "createTask test_parseURL
     (download_progress (fst (deleteTask store_created ''t1'' ''account1'')) test_task
        ''1.0 MB/s'' 50)
     test_params ''t2'' 2000 =
     Inr (store_two_live, sanitize (test_task\<lparr> task_id := ''t2'', createdAt := 2000 \<rparr>) False None)"
  by (simp add: deleted_store download_progress_def createTask_def validateDownloadURL_def
      test_parseURL_def test_params_def ALLOWED_DOWNLOAD_RE_def ci_char_def is_dotted_quad_def
      is_digit_def MIN_ACCOUNT_HASH_LENGTH_def account_index_def Let_def saveTask_def
      addToAccountIndex_def startDownload_begin_def store_two_live_def test_task_def loadTask_def)

lemma two_live_tasks:
  "live_tasks store_two_live ''account1'' ''com.example.app'' ''1.0'' = {''t1'', ''t2''}"
  by (auto simp: live_tasks_def loadTask_def store_two_live_def test_task_def test_software_def
      split: if_splits)

text \<open>
  Claim C6 (deduplication invariant) on a run of the code. The task \<open>t1\<close> is created; it
  is deleted while its pipeline awaits an upload inside \<open>flushBuffer\<close>: the task, its key
  and its entry in the account's index are gone. The pipeline comes back to the read
  loop and reports progress before it tests the signal: its object is saved, so
  \<open>task:t1\<close> exists again, \<open>downloading\<close>, outside the index. The same request is then
  made again; \<open>createTask\<close> scans the index, finds nothing and succeeds with the id \<open>t2\<close>.
  The store now holds two tasks of the same account, bundle and version that have not
  failed, after a successful \<open>createTask\<close>, and no conflict was raised.
\<close>

theorem dedup_broken_by_stale_write:
  "createTask test_parseURL empty_store test_params ''t1'' 1000 =
     Inr (store_created, sanitize test_task False None) \<and>
   createTask test_parseURL
     (download_progress (fst (deleteTask store_created ''t1'' ''account1'')) test_task
        ''1.0 MB/s'' 50)
     test_params ''t2'' 2000 =
     Inr (store_two_live, sanitize (test_task\<lparr> task_id := ''t2'', createdAt := 2000 \<rparr>) False None) \<and>
   live_tasks store_two_live ''account1'' ''com.example.app'' ''1.0'' = {''t1'', ''t2''} \<and>
   card (live_tasks store_two_live ''account1'' ''com.example.app'' ''1.0'') = 2"
  using createTask_test createTask_again by (simp add: two_live_tasks)

section \<open>Properties of the janitor\<close>

lemma deleteR2Files_removed:
  "truthy k \<Longrightarrow> the k \<notin> fst ` set (bucket (deleteR2Files s i h k t))"
  by (auto simp: deleteR2Files_def bucket_delete_def Let_def split: option.splits)

lemma deleteR2Files_controllers:
  "bucket (deleteR2Files (s\<lparr> abortControllers := c \<rparr>) i h k t) = bucket (deleteR2Files s i h k t)"
  by (simp add: deleteR2Files_def Let_def split: option.splits)

lemma purgeTask_bucket: "bucket (purgeTask s i h k t) = bucket (deleteR2Files s i h k t)"
proof -
  define s1 where "s1 = deleteR2Files (s\<lparr> abortControllers := abortControllers s - {i} \<rparr>) i h k t"
  have "purgeTask s i h k t =
          removeFromAccountIndex (s1\<lparr> tasks := AList.delete i (tasks s1),
                                      r2keys := AList.delete i (r2keys s1) \<rparr>) h i"
    by (simp add: purgeTask_def Let_def s1_def)
  then have "bucket (purgeTask s i h k t) = bucket s1"
    by (simp add: removeFromAccountIndex_view)
  then show ?thesis by (simp add: s1_def deleteR2Files_controllers)
qed

text \<open>Every blob still in the store is still in \<open>sizeMap\<close>.\<close>

lemma purge_entry_listing:
  assumes "fst ` set (bucket (dm j)) \<subseteq> fst ` set (sizeMap j)"
  shows "fst ` set (bucket (dm (purge_entry j e))) \<subseteq> fst ` set (sizeMap (purge_entry j e))"
proof
  fix k assume k: "k \<in> fst ` set (bucket (dm (purge_entry j e)))"
  let ?b = "bucket (deleteR2Files (dm j) (e_id e) (accountHash (e_task e)) (e_r2key e)
                      (Some (e_task e)))"
  from k have kb: "k \<in> fst ` set ?b"
    by (simp add: purge_entry_def Let_def purgeTask_bucket)
  have "set ?b \<subseteq> set (bucket (dm j))" by (rule deleteR2Files_view(6))
  with kb assms have ks: "k \<in> fst ` set (sizeMap j)" by blast
  show "k \<in> fst ` set (sizeMap (purge_entry j e))"
  proof (cases "truthy (e_r2key e)")
    case True
    from deleteR2Files_removed[OF True] kb have "k \<noteq> the (e_r2key e)" by metis
    then have "k \<in> set (removeAll (the (e_r2key e)) (map fst (sizeMap j)))"
      using ks by simp
    then have "k \<in> set (map fst (AList.delete (the (e_r2key e)) (sizeMap j)))"
      by (simp only: AList.delete_keys)
    then show ?thesis using True by (simp add: purge_entry_def Let_def)
  next
    case False
    then show ?thesis using ks by (simp add: purge_entry_def Let_def)
  qed
qed

lemma age_fold_listing:
  "fst ` set (bucket (dm j)) \<subseteq> fst ` set (sizeMap j) \<Longrightarrow>
   fst ` set (bucket (dm (fold (age_step cutoff) es j)))
     \<subseteq> fst ` set (sizeMap (fold (age_step cutoff) es j))"
proof (induction es arbitrary: j)
  case Nil
  then show ?case by simp
next
  case (Cons e es)
  have "fst ` set (bucket (dm (age_step cutoff e j))) \<subseteq> fst ` set (sizeMap (age_step cutoff e j))"
    using purge_entry_listing[OF Cons.prems, of e] Cons.prems
    by (simp add: age_step_def Let_def)
  from Cons.IH[OF this] show ?case by simp
qed

lemma quota_loop_listing:
  "fst ` set (bucket (dm j)) \<subseteq> fst ` set (sizeMap j) \<Longrightarrow>
   fst ` set (bucket (dm (quota_loop maxBytes es j)))
     \<subseteq> fst ` set (sizeMap (quota_loop maxBytes es j))"
proof (induction es arbitrary: j)
  case Nil
  then show ?case by simp
next
  case (Cons e es)
  have "fst ` set (bucket (dm (quota_step e j))) \<subseteq> fst ` set (sizeMap (quota_step e j))"
    using purge_entry_listing[OF Cons.prems, of e] by (simp add: quota_step_def Let_def)
  from Cons.IH[OF this] Cons.prems show ?case by simp
qed

lemma phases_listing:
  "fst ` set (bucket (dm (phase2 maxMB (phase1 days now (collect s)))))
     \<subseteq> fst ` set (sizeMap (phase2 maxMB (phase1 days now (collect s))))"
proof -
  have a: "fst ` set (bucket (dm (collect s))) \<subseteq> fst ` set (sizeMap (collect s))"
    by (simp add: collect_def)
  have b: "fst ` set (bucket (dm (phase1 days now (collect s))))
             \<subseteq> fst ` set (sizeMap (phase1 days now (collect s)))"
    using a age_fold_listing[OF a] by (simp add: phase1_def Let_def)
  show ?thesis
    using b quota_loop_listing[of "(phase1 days now (collect s))\<lparr> allTasks :=
        sort_by_createdAt (allTasks (phase1 days now (collect s))) \<rparr>"]
    by (simp add: phase2_def Let_def)
qed

lemma bucket_delete_keys:
  "k \<in> fst ` set (bucket_delete ks b) \<longleftrightarrow> k \<in> fst ` set b \<and> k \<notin> set ks"
  by (force simp: bucket_delete_def)

lemma phase3_no_orphans:
  assumes "fst ` set (bucket (dm j)) \<subseteq> fst ` set (sizeMap j)"
    and "k \<in> fst ` set (bucket (dm (phase3 j)))"
  shows "k \<in> snd ` set (r2keys (dm (phase3 j)))"
proof -
  let ?orph = "filter (\<lambda>(k, n). k \<notin> set (map snd (r2keys (dm j)))) (sizeMap j)"
  have r: "r2keys (dm (phase3 j)) = r2keys (dm j)" by (simp add: phase3_def Let_def)
  show ?thesis
  proof (cases "length (map fst ?orph) > 0")
    case True
    then have b: "bucket (dm (phase3 j)) = bucket_delete (map fst ?orph) (bucket (dm j))"
      by (simp add: phase3_def Let_def)
    have "k \<in> fst ` set (bucket (dm j)) \<and> k \<notin> set (map fst ?orph)"
      using assms(2) unfolding b bucket_delete_keys .
    then have kb: "k \<in> fst ` set (bucket (dm j))" and no: "k \<notin> set (map fst ?orph)"
      by blast+
    from kb assms(1) obtain n where kn: "(k, n) \<in> set (sizeMap j)" by auto
    have "k \<in> set (map snd (r2keys (dm j)))"
    proof (rule ccontr)
      assume "k \<notin> set (map snd (r2keys (dm j)))"
      with kn have "(k, n) \<in> set ?orph" by simp
      then have "fst (k, n) \<in> fst ` set ?orph" by (rule imageI)
      with no show False by simp
    qed
    then show ?thesis by (simp add: r)
  next
    case False
    then have e: "?orph = []" by simp
    from False have b: "bucket (dm (phase3 j)) = bucket (dm j)"
      by (simp add: phase3_def Let_def)
    from assms obtain n where kn: "(k, n) \<in> set (sizeMap j)" by (auto simp: b)
    have "k \<in> set (map snd (r2keys (dm j)))"
    proof (rule ccontr)
      assume "k \<notin> set (map snd (r2keys (dm j)))"
      with kn have "(k, n) \<in> set ?orph" by simp
      then show False by (simp only: e) simp
    qed
    then show ?thesis by (simp add: r)
  qed
qed

text \<open>The quota loop purges a prefix of its list, and stops at the first total within the cap.\<close>

lemma quota_loop_prefix:
  "\<exists>n \<le> length es.
     quota_loop maxBytes es j = fold quota_step (take n es) j \<and>
     (\<forall>m < n. maxBytes < totalSize (fold quota_step (take m es) j)) \<and>
     (n < length es \<longrightarrow> totalSize (quota_loop maxBytes es j) \<le> maxBytes)"
proof (induction es arbitrary: j)
  case Nil
  then show ?case by simp
next
  case (Cons e es)
  show ?case
  proof (cases "totalSize j \<le> maxBytes")
    case True
    then show ?thesis by (intro exI[of _ 0]) simp
  next
    case False
    from Cons.IH[of "quota_step e j"] obtain n where n: "n \<le> length es"
      "quota_loop maxBytes es (quota_step e j) = fold quota_step (take n es) (quota_step e j)"
      "\<forall>m < n. maxBytes < totalSize (fold quota_step (take m es) (quota_step e j))"
      "n < length es \<longrightarrow> totalSize (quota_loop maxBytes es (quota_step e j)) \<le> maxBytes"
      by blast
    have "\<forall>m < Suc n. maxBytes < totalSize (fold quota_step (take m (e # es)) j)"
    proof (intro allI impI)
      fix m assume "m < Suc n"
      then show "maxBytes < totalSize (fold quota_step (take m (e # es)) j)"
        using False n(3) by (cases m) auto
    qed
    with n False show ?thesis by (intro exI[of _ "Suc n"]) simp
  qed
qed

lemma purge_entry_tasks:
  "loadTask (dm (purge_entry j e)) = (loadTask (dm j))(e_id e := None)"
  by (simp add: purge_entry_def Let_def purgeTask_view)

lemma fold_quota_tasks:
  "loadTask (dm (fold quota_step es j)) i =
     (if i \<in> e_id ` set es then None else loadTask (dm j) i)"
  by (induction es arbitrary: j) (auto simp: quota_step_def Let_def purge_entry_tasks)

lemma completed_task_simps:
  "accountHash (completed_task i c) = ''account1''"
  "bundleID (software (completed_task i c)) = ''com.example.app''"
  "createdAt (completed_task i c) = c"
  by (simp_all add: completed_task_def test_software_def)

lemma collect_test:
  "collect janitor_store =
     \<lparr> dm = janitor_store,
       allTasks = [\<lparr> e_id = ''t1'', e_task = completed_task ''t1'' 1000,
                      e_r2key = Some ''packages/account1/com.example.app/t1.ipa'' \<rparr>,
                   \<lparr> e_id = ''t2'', e_task = completed_task ''t2'' 2000,
                      e_r2key = Some ''packages/account1/com.example.app/t2.ipa'' \<rparr>,
                   \<lparr> e_id = ''t3'', e_task = completed_task ''t3'' 3000,
                      e_r2key = Some ''packages/account1/com.example.app/t3.ipa'' \<rparr>],
       sizeMap = [(''packages/account1/com.example.app/t1.ipa'', 1048576),
                  (''packages/account1/com.example.app/t2.ipa'', 1048576),
                  (''packages/account1/com.example.app/t3.ipa'', 1048576),
                  (''stray.bin'', 5)],
       totalSize = 3145733, deletedByAge = 0, deletedBySize = 0, deletedOrphaned = 0 \<rparr>"
  by (simp add: collect_def janitor_store_def)

lemma quota_step_test1:
  "quota_step \<lparr> e_id = ''t1'', e_task = completed_task ''t1'' 1000,
                 e_r2key = Some ''packages/account1/com.example.app/t1.ipa'' \<rparr>
     \<lparr> dm = janitor_store, allTasks = es,
       sizeMap = [(''packages/account1/com.example.app/t1.ipa'', 1048576),
                  (''packages/account1/com.example.app/t2.ipa'', 1048576),
                  (''packages/account1/com.example.app/t3.ipa'', 1048576),
                  (''stray.bin'', 5)],
       totalSize = 3145733, deletedByAge = 0, deletedBySize = 0, deletedOrphaned = 0 \<rparr> =
     \<lparr> dm = \<lparr> tasks = [(''t2'', completed_task ''t2'' 2000), (''t3'', completed_task ''t3'' 3000)],
              r2keys = [(''t2'', ''packages/account1/com.example.app/t2.ipa''),
                        (''t3'', ''packages/account1/com.example.app/t3.ipa'')],
              accounts = [(''account1'', [''t2'', ''t3''])],
              abortControllers = {},
              bucket = [(''packages/account1/com.example.app/t2.ipa'', 1048576),
                        (''packages/account1/com.example.app/t3.ipa'', 1048576),
                        (''stray.bin'', 5)] \<rparr>,
       allTasks = es,
       sizeMap = [(''packages/account1/com.example.app/t2.ipa'', 1048576),
                  (''packages/account1/com.example.app/t3.ipa'', 1048576),
                  (''stray.bin'', 5)],
       totalSize = 2097157, deletedByAge = 0, deletedBySize = Suc 0, deletedOrphaned = 0 \<rparr>"
  by (simp add: quota_step_def purge_entry_def purgeTask_def deleteR2Files_def truthy_def
      computed_key_def Let_def completed_task_simps removeFromAccountIndex_def
      account_index_def bucket_delete_def janitor_store_def)

lemma quota_step_test2:
  "quota_step \<lparr> e_id = ''t2'', e_task = completed_task ''t2'' 2000,
                 e_r2key = Some ''packages/account1/com.example.app/t2.ipa'' \<rparr>
     \<lparr> dm = \<lparr> tasks = [(''t2'', completed_task ''t2'' 2000), (''t3'', completed_task ''t3'' 3000)],
              r2keys = [(''t2'', ''packages/account1/com.example.app/t2.ipa''),
                        (''t3'', ''packages/account1/com.example.app/t3.ipa'')],
              accounts = [(''account1'', [''t2'', ''t3''])],
              abortControllers = {},
              bucket = [(''packages/account1/com.example.app/t2.ipa'', 1048576),
                        (''packages/account1/com.example.app/t3.ipa'', 1048576),
                        (''stray.bin'', 5)] \<rparr>,
       allTasks = es,
       sizeMap = [(''packages/account1/com.example.app/t2.ipa'', 1048576),
                  (''packages/account1/com.example.app/t3.ipa'', 1048576),
                  (''stray.bin'', 5)],
       totalSize = 2097157, deletedByAge = 0, deletedBySize = Suc 0, deletedOrphaned = 0 \<rparr> =
     \<lparr> dm = \<lparr> tasks = [(''t3'', completed_task ''t3'' 3000)],
              r2keys = [(''t3'', ''packages/account1/com.example.app/t3.ipa'')],
              accounts = [(''account1'', [''t3''])],
              abortControllers = {},
              bucket = [(''packages/account1/com.example.app/t3.ipa'', 1048576),
                        (''stray.bin'', 5)] \<rparr>,
       allTasks = es,
       sizeMap = [(''packages/account1/com.example.app/t3.ipa'', 1048576), (''stray.bin'', 5)],
       totalSize = 1048581, deletedByAge = 0, deletedBySize = 2, deletedOrphaned = 0 \<rparr>"
  by (simp add: quota_step_def purge_entry_def purgeTask_def deleteR2Files_def truthy_def
      computed_key_def Let_def completed_task_simps removeFromAccountIndex_def
      account_index_def bucket_delete_def)

lemma phase3_test:
  "phase3
     \<lparr> dm = \<lparr> tasks = [(''t3'', completed_task ''t3'' 3000)],
              r2keys = [(''t3'', ''packages/account1/com.example.app/t3.ipa'')],
              accounts = [(''account1'', [''t3''])],
              abortControllers = {},
              bucket = [(''packages/account1/com.example.app/t3.ipa'', 1048576),
                        (''stray.bin'', 5)] \<rparr>,
       allTasks = es,
       sizeMap = [(''packages/account1/com.example.app/t3.ipa'', 1048576), (''stray.bin'', 5)],
       totalSize = 1048581, deletedByAge = 0, deletedBySize = 2, deletedOrphaned = 0 \<rparr> =
     \<lparr> dm = \<lparr> tasks = [(''t3'', completed_task ''t3'' 3000)],
              r2keys = [(''t3'', ''packages/account1/com.example.app/t3.ipa'')],
              accounts = [(''account1'', [''t3''])],
              abortControllers = {},
              bucket = [(''packages/account1/com.example.app/t3.ipa'', 1048576)] \<rparr>,
       allTasks = es,
       sizeMap = [(''packages/account1/com.example.app/t3.ipa'', 1048576), (''stray.bin'', 5)],
       totalSize = 1048576, deletedByAge = 0, deletedBySize = 2, deletedOrphaned = 1 \<rparr>"
  by (simp add: phase3_def Let_def bucket_delete_def)

lemma sort_test:
  "sort_by_createdAt
     [\<lparr> e_id = ''t1'', e_task = completed_task ''t1'' 1000,
        e_r2key = Some ''packages/account1/com.example.app/t1.ipa'' \<rparr>,
      \<lparr> e_id = ''t2'', e_task = completed_task ''t2'' 2000,
        e_r2key = Some ''packages/account1/com.example.app/t2.ipa'' \<rparr>,
      \<lparr> e_id = ''t3'', e_task = completed_task ''t3'' 3000,
        e_r2key = Some ''packages/account1/com.example.app/t3.ipa'' \<rparr>] =
     [\<lparr> e_id = ''t1'', e_task = completed_task ''t1'' 1000,
        e_r2key = Some ''packages/account1/com.example.app/t1.ipa'' \<rparr>,
      \<lparr> e_id = ''t2'', e_task = completed_task ''t2'' 2000,
        e_r2key = Some ''packages/account1/com.example.app/t2.ipa'' \<rparr>,
      \<lparr> e_id = ''t3'', e_task = completed_task ''t3'' 3000,
        e_r2key = Some ''packages/account1/com.example.app/t3.ipa'' \<rparr>]"
  by (simp add: sort_by_createdAt_def completed_task_simps)

lemma cleanupExpired_test:
  "cleanupExpired janitor_store 0 2 5000 =
     (\<lparr> tasks = [(''t3'', completed_task ''t3'' 3000)],
        r2keys = [(''t3'', ''packages/account1/com.example.app/t3.ipa'')],
        accounts = [(''account1'', [''t3''])],
        abortControllers = {},
        bucket = [(''packages/account1/com.example.app/t3.ipa'', 1048576)] \<rparr>,
      (0, 2, 1, 1048576))"
  by (simp add: cleanupExpired_def collect_test phase1_def phase2_def sort_test
      quota_step_test1 quota_step_test2 phase3_test)

subsection \<open>What a purge does to the running total, the listing and the records\<close>

lemma purge_entry_fields:
  "totalSize (purge_entry j e) =
     totalSize j - (if truthy (e_r2key e) then key_size (sizeMap j) (the (e_r2key e)) else 0)"
  "sizeMap (purge_entry j e) =
     (if truthy (e_r2key e) then AList.delete (the (e_r2key e)) (sizeMap j) else sizeMap j)"
  "allTasks (purge_entry j e) = allTasks j"
  "deletedByAge (purge_entry j e) = deletedByAge j"
  "deletedBySize (purge_entry j e) = deletedBySize j"
  "deletedOrphaned (purge_entry j e) = deletedOrphaned j"
  "map_of (r2keys (dm (purge_entry j e))) = (map_of (r2keys (dm j)))(e_id e := None)"
  by (simp_all add: purge_entry_def Let_def key_size_def purgeTask_view)

lemma key_size_delete:
  "key_size (AList.delete k m) k' = (if k' = k then 0 else key_size m k')"
  by (simp add: key_size_def AList.delete_conv)

lemma sum_key_size_delete:
  assumes "finite S"
  shows "sum (key_size (AList.delete k m)) S = sum (key_size m) (S - {k})"
  by (rule sum.mono_neutral_cong_right[OF assms]) (auto simp: key_size_delete)

lemma stored_keys_Cons:
  "stored_keys (e # es) =
     (if truthy (e_r2key e) then the (e_r2key e) # stored_keys es else stored_keys es)"
  by (simp add: stored_keys_def)

lemma purged_size_purge:
  "purged_size (sizeMap j) (e # es) =
     (if truthy (e_r2key e) then key_size (sizeMap j) (the (e_r2key e)) else 0)
       + purged_size (sizeMap (purge_entry j e)) es"
proof (cases "truthy (e_r2key e)")
  case False
  then show ?thesis by (simp add: purged_size_def stored_keys_Cons purge_entry_fields)
next
  case True
  have "sum (key_size (sizeMap j)) (insert (the (e_r2key e)) (set (stored_keys es)))
          = key_size (sizeMap j) (the (e_r2key e))
              + sum (key_size (sizeMap j)) (set (stored_keys es) - {the (e_r2key e)})"
    by (rule sum.insert_remove) simp
  then show ?thesis
    using True
    by (simp add: purged_size_def stored_keys_Cons purge_entry_fields sum_key_size_delete)
qed

lemma purge_entry_total:
  "totalSize (purge_entry j e) - purged_size (sizeMap (purge_entry j e)) es
     = totalSize j - purged_size (sizeMap j) (e # es)"
  by (simp add: purged_size_purge[of j e es] purge_entry_fields(1))

lemma purge_entry_sizeMap:
  "filter (\<lambda>(k, n). k \<notin> set (stored_keys es)) (sizeMap (purge_entry j e))
     = filter (\<lambda>(k, n). k \<notin> set (stored_keys (e # es))) (sizeMap j)"
  by (auto simp: purge_entry_fields stored_keys_Cons AList.delete_eq intro: filter_cong)

lemma purge_entry_bucket:
  "set (bucket (dm (purge_entry j e))) \<subseteq> set (bucket (dm j))"
  "truthy (e_r2key e) \<Longrightarrow> the (e_r2key e) \<notin> fst ` set (bucket (dm (purge_entry j e)))"
proof -
  have b: "bucket (dm (purge_entry j e)) =
             bucket (deleteR2Files (dm j) (e_id e) (accountHash (e_task e)) (e_r2key e)
                       (Some (e_task e)))"
    by (simp add: purge_entry_def Let_def purgeTask_bucket)
  show "set (bucket (dm (purge_entry j e))) \<subseteq> set (bucket (dm j))"
    unfolding b by (rule deleteR2Files_view(6))
  show "truthy (e_r2key e) \<Longrightarrow> the (e_r2key e) \<notin> fst ` set (bucket (dm (purge_entry j e)))"
    unfolding b by (rule deleteR2Files_removed)
qed

subsection \<open>The quota loop\<close>

lemma quota_step_fields:
  "totalSize (quota_step e j) = totalSize (purge_entry j e)"
  "sizeMap (quota_step e j) = sizeMap (purge_entry j e)"
  "deletedBySize (quota_step e j) = deletedBySize j + 1"
  "allTasks (quota_step e j) = allTasks j"
  "bucket (dm (quota_step e j)) = bucket (dm (purge_entry j e))"
  by (simp_all add: quota_step_def Let_def purge_entry_fields)

lemma fold_quota_total:
  "totalSize (fold quota_step es j) = totalSize j - purged_size (sizeMap j) es"
proof (induction es arbitrary: j)
  case Nil
  then show ?case by (simp add: purged_size_def stored_keys_def)
next
  case (Cons e es)
  have "totalSize (fold quota_step es (quota_step e j)) =
          totalSize (purge_entry j e) - purged_size (sizeMap (purge_entry j e)) es"
    unfolding Cons.IH by (simp only: quota_step_fields)
  then show ?case by (simp add: purge_entry_total)
qed

lemma fold_quota_sizeMap:
  "sizeMap (fold quota_step es j) = filter (\<lambda>(k, n). k \<notin> set (stored_keys es)) (sizeMap j)"
proof (induction es arbitrary: j)
  case Nil
  then show ?case by (simp add: stored_keys_def)
next
  case (Cons e es)
  have "sizeMap (fold quota_step es (quota_step e j)) =
          filter (\<lambda>(k, n). k \<notin> set (stored_keys es)) (sizeMap (purge_entry j e))"
    unfolding Cons.IH by (simp only: quota_step_fields)
  then show ?case by (simp add: purge_entry_sizeMap)
qed

lemma fold_quota_count: "deletedBySize (fold quota_step es j) = deletedBySize j + length es"
  by (induction es arbitrary: j) (simp_all add: quota_step_fields)

lemma fold_quota_allTasks: "allTasks (fold quota_step es j) = allTasks j"
  by (induction es arbitrary: j) (simp_all add: quota_step_fields)

lemma fold_quota_keys:
  "map_of (r2keys (dm (fold quota_step es j))) i =
     (if i \<in> e_id ` set es then None else map_of (r2keys (dm j)) i)"
  by (induction es arbitrary: j) (auto simp: quota_step_def Let_def purge_entry_fields)

lemma fold_quota_bucket_subset:
  "set (bucket (dm (fold quota_step es j))) \<subseteq> set (bucket (dm j))"
proof (induction es arbitrary: j)
  case Nil
  then show ?case by simp
next
  case (Cons e es)
  have "set (bucket (dm (fold quota_step es (quota_step e j))))
          \<subseteq> set (bucket (dm (quota_step e j)))" by (rule Cons.IH)
  also have "\<dots> \<subseteq> set (bucket (dm j))"
    by (simp only: quota_step_fields purge_entry_bucket)
  finally show ?case by simp
qed

lemma fold_quota_bucket:
  "e \<in> set es \<Longrightarrow> truthy (e_r2key e) \<Longrightarrow>
   the (e_r2key e) \<notin> fst ` set (bucket (dm (fold quota_step es j)))"
proof (induction es arbitrary: j)
  case Nil
  then show ?case by simp
next
  case (Cons x es)
  show ?case
  proof (cases "e \<in> set es")
    case True
    from Cons.IH[OF True Cons.prems(2)] show ?thesis by simp
  next
    case False
    with Cons.prems have x: "x = e" by simp
    have "the (e_r2key e) \<notin> fst ` set (bucket (dm (quota_step e j)))"
      using purge_entry_bucket(2)[OF Cons.prems(2)] by (simp add: quota_step_fields)
    moreover have "fst ` set (bucket (dm (fold quota_step es (quota_step e j))))
                     \<subseteq> fst ` set (bucket (dm (quota_step e j)))"
      by (rule image_mono) (rule fold_quota_bucket_subset)
    ultimately show ?thesis using x by auto
  qed
qed

subsection \<open>The age phase\<close>

lemma age_step_fields:
  "totalSize (age_step c e j) =
     (if createdAt (e_task e) < c then totalSize (purge_entry j e) else totalSize j)"
  "sizeMap (age_step c e j) =
     (if createdAt (e_task e) < c then sizeMap (purge_entry j e) else sizeMap j)"
  "deletedByAge (age_step c e j) =
     (if createdAt (e_task e) < c then deletedByAge j + 1 else deletedByAge j)"
  "allTasks (age_step c e j) =
     (if createdAt (e_task e) < c then remove1 e (allTasks j) else allTasks j)"
  "loadTask (dm (age_step c e j)) =
     (if createdAt (e_task e) < c then (loadTask (dm j))(e_id e := None) else loadTask (dm j))"
  by (simp_all add: age_step_def Let_def purge_entry_fields purge_entry_tasks)

lemma fold_age_total:
  "totalSize (fold (age_step c) es j) = totalSize j - purged_size (sizeMap j) (aged c es)"
proof (induction es arbitrary: j)
  case Nil
  then show ?case by (simp add: purged_size_def stored_keys_def aged_def)
next
  case (Cons e es)
  show ?case
  proof (cases "createdAt (e_task e) < c")
    case True
    have "totalSize (fold (age_step c) es (age_step c e j)) =
            totalSize (purge_entry j e) - purged_size (sizeMap (purge_entry j e)) (aged c es)"
      unfolding Cons.IH using True by (simp only: age_step_fields if_True)
    then show ?thesis using True by (simp add: purge_entry_total aged_def)
  next
    case False
    have "totalSize (fold (age_step c) es (age_step c e j)) =
            totalSize j - purged_size (sizeMap j) (aged c es)"
      unfolding Cons.IH using False by (simp only: age_step_fields if_False)
    then show ?thesis using False by (simp add: aged_def)
  qed
qed

lemma fold_age_sizeMap:
  "sizeMap (fold (age_step c) es j)
     = filter (\<lambda>(k, n). k \<notin> set (stored_keys (aged c es))) (sizeMap j)"
proof (induction es arbitrary: j)
  case Nil
  then show ?case by (simp add: stored_keys_def aged_def)
next
  case (Cons e es)
  show ?case
  proof (cases "createdAt (e_task e) < c")
    case True
    have "sizeMap (fold (age_step c) es (age_step c e j)) =
            filter (\<lambda>(k, n). k \<notin> set (stored_keys (aged c es))) (sizeMap (purge_entry j e))"
      unfolding Cons.IH using True by (simp only: age_step_fields if_True)
    then show ?thesis using True by (simp add: purge_entry_sizeMap aged_def)
  next
    case False
    have "sizeMap (fold (age_step c) es (age_step c e j)) =
            filter (\<lambda>(k, n). k \<notin> set (stored_keys (aged c es))) (sizeMap j)"
      unfolding Cons.IH using False by (simp only: age_step_fields if_False)
    then show ?thesis using False by (simp add: aged_def)
  qed
qed

lemma fold_age_count:
  "deletedByAge (fold (age_step c) es j) = deletedByAge j + length (aged c es)"
  by (induction es arbitrary: j) (simp_all add: age_step_fields aged_def)

lemma fold_age_tasks:
  "loadTask (dm (fold (age_step c) es j)) i =
     (if i \<in> e_id ` set (aged c es) then None else loadTask (dm j) i)"
  by (induction es arbitrary: j) (auto simp: age_step_fields aged_def)

lemma fold_age_allTasks:
  "allTasks (fold (age_step c) es j) =
     fold (\<lambda>e l. if createdAt (e_task e) < c then remove1 e l else l) es (allTasks j)"
  by (induction es arbitrary: j) (simp_all add: age_step_fields)

text \<open>
  Each entry the loop removes is the first of the entries still to come: those before it
  were kept, so they are not old, and it is.
\<close>

lemma fold_remove1:
  "\<forall>x \<in> set pre. \<not> P x \<Longrightarrow>
   fold (\<lambda>e l. if P e then remove1 e l else l) es (pre @ es) = pre @ filter (\<lambda>x. \<not> P x) es"
proof (induction es arbitrary: pre)
  case Nil
  then show ?case by simp
next
  case (Cons e es)
  show ?case
  proof (cases "P e")
    case True
    with Cons.prems have "e \<notin> set pre" by blast
    then have "remove1 e (pre @ e # es) = pre @ es" by (simp add: remove1_append)
    then show ?thesis using True Cons.IH[OF Cons.prems] by simp
  next
    case False
    with Cons.prems have "\<forall>x \<in> set (pre @ [e]). \<not> P x" by simp
    from Cons.IH[OF this] show ?thesis using False by simp
  qed
qed

lemma phase1_survivors:
  "allTasks (fold (age_step c) (allTasks j) j)
     = filter (\<lambda>e. \<not> createdAt (e_task e) < c) (allTasks j)"
  unfolding fold_age_allTasks
  using fold_remove1[of "[]" "\<lambda>e. createdAt (e_task e) < c" "allTasks j"] by simp

subsection \<open>The orphan phase\<close>

lemma phase3_fields:
  "bucket (dm (phase3 j)) =
     filter (\<lambda>(k, n). \<not> (k \<in> fst ` set (sizeMap j) \<and> k \<notin> snd ` set (r2keys (dm j))))
       (bucket (dm j))"
  "tasks (dm (phase3 j)) = tasks (dm j)"
  "r2keys (dm (phase3 j)) = r2keys (dm j)"
  "accounts (dm (phase3 j)) = accounts (dm j)"
  "deletedOrphaned (phase3 j) =
     deletedOrphaned j
       + length (filter (\<lambda>(k, n). k \<notin> snd ` set (r2keys (dm j))) (sizeMap j))"
  "totalSize (phase3 j) =
     totalSize j
       - sum_list (map (\<lambda>(k, n). int n)
                    (filter (\<lambda>(k, n). k \<notin> snd ` set (r2keys (dm j))) (sizeMap j)))"
proof -
  let ?orph = "filter (\<lambda>(k, n). k \<notin> set (map snd (r2keys (dm j)))) (sizeMap j)"
  have keys: "set (map fst ?orph)
                = {k. k \<in> fst ` set (sizeMap j) \<and> k \<notin> snd ` set (r2keys (dm j))}"
    by force
  show "bucket (dm (phase3 j)) =
     filter (\<lambda>(k, n). \<not> (k \<in> fst ` set (sizeMap j) \<and> k \<notin> snd ` set (r2keys (dm j))))
       (bucket (dm j))"
  proof (cases "length (map fst ?orph) > 0")
    case True
    then have "bucket (dm (phase3 j)) = bucket_delete (map fst ?orph) (bucket (dm j))"
      by (simp add: phase3_def Let_def)
    also have "\<dots> = filter (\<lambda>(k, n). \<not> (k \<in> fst ` set (sizeMap j)
                                         \<and> k \<notin> snd ` set (r2keys (dm j)))) (bucket (dm j))"
      unfolding bucket_delete_def keys by (rule filter_cong) auto
    finally show ?thesis .
  next
    case False
    then have e: "set (map fst ?orph) = {}" by simp
    from False have "bucket (dm (phase3 j)) = bucket (dm j)"
      by (simp add: phase3_def Let_def)
    also have "\<dots> = filter (\<lambda>(k, n). \<not> (k \<in> fst ` set (sizeMap j)
                                         \<and> k \<notin> snd ` set (r2keys (dm j)))) (bucket (dm j))"
      using e[unfolded keys] by (intro filter_True[symmetric]) auto
    finally show ?thesis .
  qed
qed (simp_all add: phase3_def Let_def)

text \<open>
  Claim C8 (janitor phases). For every state \<open>j\<close> of a run and all parameters:

  \<^item> the age phase changes nothing unless \<open>days > 0\<close>; when \<open>days > 0\<close> it purges exactly the
    tasks created before \<open>now - days\<close> days: they leave \<open>allTasks\<close> and the store, the
    others stay, and the running total and the listing lose the blobs their records name;
  \<^item> the quota phase changes nothing unless \<open>maxMB > 0\<close> and the running total exceeds
    \<open>maxMB\<close> MiB; when it does, the surviving tasks are sorted by \<open>createdAt\<close>, ascending
    (a stable permutation), and the first \<open>n\<close> of them are purged, where \<open>n\<close> is the first
    count at which the initial total less the blobs of the purged tasks is at or below
    the cap, or the number of tasks when there is none: the total was above the cap
    before each purge, and the final total is the initial one less the bytes of the
    purged blobs, which have left the store;
  \<^item> the orphan phase runs in every run, whatever \<open>days\<close> and \<open>maxMB\<close> are: it deletes
    exactly the listed blobs that no \<open>r2key:*\<close> record names, so that when
    \<open>cleanupExpired\<close> returns every blob left in the store is named by such a record.
\<close>

theorem janitor_phases:
  "(days \<le> 0 \<longrightarrow> phase1 days now j = j) \<and>
   (0 < days \<longrightarrow>
      allTasks (phase1 days now j) =
        filter (\<lambda>e. \<not> createdAt (e_task e) < age_cutoff now days) (allTasks j) \<and>
      (\<forall>i. loadTask (dm (phase1 days now j)) i =
         (if i \<in> e_id ` set (aged (age_cutoff now days) (allTasks j)) then None
          else loadTask (dm j) i)) \<and>
      totalSize (phase1 days now j) =
        totalSize j - purged_size (sizeMap j) (aged (age_cutoff now days) (allTasks j)) \<and>
      sizeMap (phase1 days now j) =
        filter (\<lambda>(k, n). k \<notin> set (stored_keys (aged (age_cutoff now days) (allTasks j))))
          (sizeMap j) \<and>
      deletedByAge (phase1 days now j) =
        deletedByAge j + length (aged (age_cutoff now days) (allTasks j))) \<and>
   (maxMB \<le> 0 \<or> totalSize j \<le> maxMB * 1024 * 1024 \<longrightarrow> phase2 maxMB j = j) \<and>
   (0 < maxMB \<and> maxMB * 1024 * 1024 < totalSize j \<longrightarrow>
      sorted (map (\<lambda>e. createdAt (e_task e)) (sort_by_createdAt (allTasks j))) \<and>
      mset (sort_by_createdAt (allTasks j)) = mset (allTasks j) \<and>
      (\<forall>c. filter (\<lambda>e. createdAt (e_task e) = c) (sort_by_createdAt (allTasks j)) =
            filter (\<lambda>e. createdAt (e_task e) = c) (allTasks j)) \<and>
      (\<exists>n \<le> length (allTasks j).
         (\<forall>m < n. maxMB * 1024 * 1024 <
            totalSize j - purged_size (sizeMap j) (take m (sort_by_createdAt (allTasks j)))) \<and>
         (n < length (allTasks j) \<longrightarrow>
            totalSize j - purged_size (sizeMap j) (take n (sort_by_createdAt (allTasks j)))
              \<le> maxMB * 1024 * 1024) \<and>
         totalSize (phase2 maxMB j) =
           totalSize j - purged_size (sizeMap j) (take n (sort_by_createdAt (allTasks j))) \<and>
         sizeMap (phase2 maxMB j) =
           filter (\<lambda>(k, n'). k \<notin> set (stored_keys (take n (sort_by_createdAt (allTasks j)))))
             (sizeMap j) \<and>
         deletedBySize (phase2 maxMB j) = deletedBySize j + n \<and>
         allTasks (phase2 maxMB j) = sort_by_createdAt (allTasks j) \<and>
         (\<forall>i. loadTask (dm (phase2 maxMB j)) i =
            (if i \<in> e_id ` set (take n (sort_by_createdAt (allTasks j))) then None
             else loadTask (dm j) i)) \<and>
         (\<forall>i. map_of (r2keys (dm (phase2 maxMB j))) i =
            (if i \<in> e_id ` set (take n (sort_by_createdAt (allTasks j))) then None
             else map_of (r2keys (dm j)) i)) \<and>
         (\<forall>e \<in> set (take n (sort_by_createdAt (allTasks j))).
            truthy (e_r2key e) \<longrightarrow>
              the (e_r2key e) \<notin> fst ` set (bucket (dm (phase2 maxMB j)))))) \<and>
   bucket (dm (phase3 j)) =
     filter (\<lambda>(k, n). \<not> (k \<in> fst ` set (sizeMap j) \<and> k \<notin> snd ` set (r2keys (dm j))))
       (bucket (dm j)) \<and>
   tasks (dm (phase3 j)) = tasks (dm j) \<and>
   r2keys (dm (phase3 j)) = r2keys (dm j) \<and>
   deletedOrphaned (phase3 j) =
     deletedOrphaned j
       + length (filter (\<lambda>(k, n). k \<notin> snd ` set (r2keys (dm j))) (sizeMap j)) \<and>
   totalSize (phase3 j) =
     totalSize j
       - sum_list (map (\<lambda>(k, n). int n)
                    (filter (\<lambda>(k, n). k \<notin> snd ` set (r2keys (dm j))) (sizeMap j))) \<and>
   fst (cleanupExpired s days maxMB now) =
     dm (phase3 (phase2 maxMB (phase1 days now (collect s)))) \<and>
   (\<forall>k \<in> fst ` set (bucket (fst (cleanupExpired s days maxMB now))).
      k \<in> snd ` set (r2keys (fst (cleanupExpired s days maxMB now))))"
proof -
  have c1: "days \<le> 0 \<longrightarrow> phase1 days now j = j" by (simp add: phase1_def)
  have c2: "0 < days \<longrightarrow>
      allTasks (phase1 days now j) =
        filter (\<lambda>e. \<not> createdAt (e_task e) < age_cutoff now days) (allTasks j) \<and>
      (\<forall>i. loadTask (dm (phase1 days now j)) i =
         (if i \<in> e_id ` set (aged (age_cutoff now days) (allTasks j)) then None
          else loadTask (dm j) i)) \<and>
      totalSize (phase1 days now j) =
        totalSize j - purged_size (sizeMap j) (aged (age_cutoff now days) (allTasks j)) \<and>
      sizeMap (phase1 days now j) =
        filter (\<lambda>(k, n). k \<notin> set (stored_keys (aged (age_cutoff now days) (allTasks j))))
          (sizeMap j) \<and>
      deletedByAge (phase1 days now j) =
        deletedByAge j + length (aged (age_cutoff now days) (allTasks j))"
  proof
    assume "0 < days"
    then have p: "phase1 days now j = fold (age_step (age_cutoff now days)) (allTasks j) j"
      by (simp add: phase1_def Let_def age_cutoff_def)
    show "allTasks (phase1 days now j) =
        filter (\<lambda>e. \<not> createdAt (e_task e) < age_cutoff now days) (allTasks j) \<and>
      (\<forall>i. loadTask (dm (phase1 days now j)) i =
         (if i \<in> e_id ` set (aged (age_cutoff now days) (allTasks j)) then None
          else loadTask (dm j) i)) \<and>
      totalSize (phase1 days now j) =
        totalSize j - purged_size (sizeMap j) (aged (age_cutoff now days) (allTasks j)) \<and>
      sizeMap (phase1 days now j) =
        filter (\<lambda>(k, n). k \<notin> set (stored_keys (aged (age_cutoff now days) (allTasks j))))
          (sizeMap j) \<and>
      deletedByAge (phase1 days now j) =
        deletedByAge j + length (aged (age_cutoff now days) (allTasks j))"
      unfolding p
      by (intro conjI allI phase1_survivors fold_age_tasks fold_age_total fold_age_sizeMap
          fold_age_count)
  qed
  have c3: "maxMB \<le> 0 \<or> totalSize j \<le> maxMB * 1024 * 1024 \<longrightarrow> phase2 maxMB j = j"
    by (auto simp: phase2_def Let_def)
  have c4: "0 < maxMB \<and> maxMB * 1024 * 1024 < totalSize j \<longrightarrow>
      sorted (map (\<lambda>e. createdAt (e_task e)) (sort_by_createdAt (allTasks j))) \<and>
      mset (sort_by_createdAt (allTasks j)) = mset (allTasks j) \<and>
      (\<forall>c. filter (\<lambda>e. createdAt (e_task e) = c) (sort_by_createdAt (allTasks j)) =
            filter (\<lambda>e. createdAt (e_task e) = c) (allTasks j)) \<and>
      (\<exists>n \<le> length (allTasks j).
         (\<forall>m < n. maxMB * 1024 * 1024 <
            totalSize j - purged_size (sizeMap j) (take m (sort_by_createdAt (allTasks j)))) \<and>
         (n < length (allTasks j) \<longrightarrow>
            totalSize j - purged_size (sizeMap j) (take n (sort_by_createdAt (allTasks j)))
              \<le> maxMB * 1024 * 1024) \<and>
         totalSize (phase2 maxMB j) =
           totalSize j - purged_size (sizeMap j) (take n (sort_by_createdAt (allTasks j))) \<and>
         sizeMap (phase2 maxMB j) =
           filter (\<lambda>(k, n'). k \<notin> set (stored_keys (take n (sort_by_createdAt (allTasks j)))))
             (sizeMap j) \<and>
         deletedBySize (phase2 maxMB j) = deletedBySize j + n \<and>
         allTasks (phase2 maxMB j) = sort_by_createdAt (allTasks j) \<and>
         (\<forall>i. loadTask (dm (phase2 maxMB j)) i =
            (if i \<in> e_id ` set (take n (sort_by_createdAt (allTasks j))) then None
             else loadTask (dm j) i)) \<and>
         (\<forall>i. map_of (r2keys (dm (phase2 maxMB j))) i =
            (if i \<in> e_id ` set (take n (sort_by_createdAt (allTasks j))) then None
             else map_of (r2keys (dm j)) i)) \<and>
         (\<forall>e \<in> set (take n (sort_by_createdAt (allTasks j))).
            truthy (e_r2key e) \<longrightarrow>
              the (e_r2key e) \<notin> fst ` set (bucket (dm (phase2 maxMB j)))))"
  proof
    assume a: "0 < maxMB \<and> maxMB * 1024 * 1024 < totalSize j"
    define srt where "srt = sort_by_createdAt (allTasks j)"
    define j' where "j' = j\<lparr> allTasks := srt \<rparr>"
    define cap where "cap = maxMB * 1024 * 1024"
    have p: "phase2 maxMB j = quota_loop cap srt j'"
      using a by (simp add: phase2_def Let_def srt_def j'_def cap_def)
    have j': "totalSize j' = totalSize j" "sizeMap j' = sizeMap j" "dm j' = dm j"
      "deletedBySize j' = deletedBySize j" "allTasks j' = srt"
      by (simp_all add: j'_def)
    have len: "length srt = length (allTasks j)" by (simp add: srt_def sort_by_createdAt_def)
    from quota_loop_prefix[of srt cap j']
    obtain n where n: "n \<le> length srt"
      "quota_loop cap srt j' = fold quota_step (take n srt) j'"
      "\<forall>m < n. cap < totalSize (fold quota_step (take m srt) j')"
      "n < length srt \<longrightarrow> totalSize (quota_loop cap srt j') \<le> cap"
      by blast
    have q: "phase2 maxMB j = fold quota_step (take n srt) j'" by (simp only: p n(2))
    have s1: "sorted (map (\<lambda>e. createdAt (e_task e)) srt)"
      by (simp add: srt_def sort_by_createdAt_def)
    have s2: "mset srt = mset (allTasks j)" by (simp add: srt_def sort_by_createdAt_def)
    have s3: "\<forall>c. filter (\<lambda>e. createdAt (e_task e) = c) srt =
                  filter (\<lambda>e. createdAt (e_task e) = c) (allTasks j)"
      unfolding srt_def sort_by_createdAt_def by (intro allI sort_key_stable)
    have n1: "\<forall>m < n. cap < totalSize j - purged_size (sizeMap j) (take m srt)"
      using n(3) by (simp add: fold_quota_total j')
    have n2: "n < length (allTasks j) \<longrightarrow>
                totalSize j - purged_size (sizeMap j) (take n srt) \<le> cap"
      using n(4) unfolding n(2) len by (simp add: fold_quota_total j')
    have f1: "totalSize (phase2 maxMB j) = totalSize j - purged_size (sizeMap j) (take n srt)"
      unfolding q by (simp add: fold_quota_total j')
    have f2: "sizeMap (phase2 maxMB j) =
                filter (\<lambda>(k, n'). k \<notin> set (stored_keys (take n srt))) (sizeMap j)"
      unfolding q by (simp add: fold_quota_sizeMap j')
    have f3: "deletedBySize (phase2 maxMB j) = deletedBySize j + n"
      unfolding q using n(1) by (simp add: fold_quota_count j')
    have f4: "allTasks (phase2 maxMB j) = srt"
      unfolding q by (simp add: fold_quota_allTasks j')
    have f5: "\<forall>i. loadTask (dm (phase2 maxMB j)) i =
                (if i \<in> e_id ` set (take n srt) then None else loadTask (dm j) i)"
      unfolding q by (simp add: fold_quota_tasks j')
    have f6: "\<forall>i. map_of (r2keys (dm (phase2 maxMB j))) i =
                (if i \<in> e_id ` set (take n srt) then None else map_of (r2keys (dm j)) i)"
      unfolding q by (simp add: fold_quota_keys j')
    have f7: "\<forall>e \<in> set (take n srt). truthy (e_r2key e) \<longrightarrow>
                the (e_r2key e) \<notin> fst ` set (bucket (dm (phase2 maxMB j)))"
      unfolding q by (intro ballI impI fold_quota_bucket)
    from n(1) len have n0: "n \<le> length (allTasks j)" by simp
    have ex: "\<exists>n \<le> length (allTasks j).
         (\<forall>m < n. cap < totalSize j - purged_size (sizeMap j) (take m srt)) \<and>
         (n < length (allTasks j) \<longrightarrow>
            totalSize j - purged_size (sizeMap j) (take n srt) \<le> cap) \<and>
         totalSize (phase2 maxMB j) = totalSize j - purged_size (sizeMap j) (take n srt) \<and>
         sizeMap (phase2 maxMB j) =
           filter (\<lambda>(k, n'). k \<notin> set (stored_keys (take n srt))) (sizeMap j) \<and>
         deletedBySize (phase2 maxMB j) = deletedBySize j + n \<and>
         allTasks (phase2 maxMB j) = srt \<and>
         (\<forall>i. loadTask (dm (phase2 maxMB j)) i =
            (if i \<in> e_id ` set (take n srt) then None else loadTask (dm j) i)) \<and>
         (\<forall>i. map_of (r2keys (dm (phase2 maxMB j))) i =
            (if i \<in> e_id ` set (take n srt) then None else map_of (r2keys (dm j)) i)) \<and>
         (\<forall>e \<in> set (take n srt). truthy (e_r2key e) \<longrightarrow>
              the (e_r2key e) \<notin> fst ` set (bucket (dm (phase2 maxMB j))))"
      using n0 n1 n2 f1 f2 f3 f4 f5 f6 f7 by (intro exI[of _ n] conjI)
    from s1 s2 s3 ex show "sorted (map (\<lambda>e. createdAt (e_task e)) (sort_by_createdAt (allTasks j))) \<and>
      mset (sort_by_createdAt (allTasks j)) = mset (allTasks j) \<and>
      (\<forall>c. filter (\<lambda>e. createdAt (e_task e) = c) (sort_by_createdAt (allTasks j)) =
            filter (\<lambda>e. createdAt (e_task e) = c) (allTasks j)) \<and>
      (\<exists>n \<le> length (allTasks j).
         (\<forall>m < n. maxMB * 1024 * 1024 <
            totalSize j - purged_size (sizeMap j) (take m (sort_by_createdAt (allTasks j)))) \<and>
         (n < length (allTasks j) \<longrightarrow>
            totalSize j - purged_size (sizeMap j) (take n (sort_by_createdAt (allTasks j)))
              \<le> maxMB * 1024 * 1024) \<and>
         totalSize (phase2 maxMB j) =
           totalSize j - purged_size (sizeMap j) (take n (sort_by_createdAt (allTasks j))) \<and>
         sizeMap (phase2 maxMB j) =
           filter (\<lambda>(k, n'). k \<notin> set (stored_keys (take n (sort_by_createdAt (allTasks j)))))
             (sizeMap j) \<and>
         deletedBySize (phase2 maxMB j) = deletedBySize j + n \<and>
         allTasks (phase2 maxMB j) = sort_by_createdAt (allTasks j) \<and>
         (\<forall>i. loadTask (dm (phase2 maxMB j)) i =
            (if i \<in> e_id ` set (take n (sort_by_createdAt (allTasks j))) then None
             else loadTask (dm j) i)) \<and>
         (\<forall>i. map_of (r2keys (dm (phase2 maxMB j))) i =
            (if i \<in> e_id ` set (take n (sort_by_createdAt (allTasks j))) then None
             else map_of (r2keys (dm j)) i)) \<and>
         (\<forall>e \<in> set (take n (sort_by_createdAt (allTasks j))).
            truthy (e_r2key e) \<longrightarrow>
              the (e_r2key e) \<notin> fst ` set (bucket (dm (phase2 maxMB j)))))"
      unfolding srt_def cap_def by (intro conjI)
  qed
  have c5: "fst (cleanupExpired s days maxMB now) =
              dm (phase3 (phase2 maxMB (phase1 days now (collect s))))"
    by (simp add: cleanupExpired_def Let_def)
  have c6: "\<forall>k \<in> fst ` set (bucket (fst (cleanupExpired s days maxMB now))).
      k \<in> snd ` set (r2keys (fst (cleanupExpired s days maxMB now)))"
    unfolding c5 by (intro ballI phase3_no_orphans[OF phases_listing])
  from c1 c2 c3 c4 c5 c6 phase3_fields(1)[of j] phase3_fields(2)[of j] phase3_fields(3)[of j]
    phase3_fields(5)[of j] phase3_fields(6)[of j]
  show ?thesis by (intro conjI)
qed

text \<open>
  The theorem on the store of three tasks of 1 MiB, created at 1000, 2000 and 3000, and a
  stray blob of 5 bytes. With \<open>days = 0\<close> the age phase changes nothing; with \<open>days = 1\<close>,
  a day and 1500 ms after the epoch, it purges the first task alone. With \<open>maxMB = 0\<close>
  and with \<open>maxMB = 4\<close> the quota phase changes nothing; with \<open>maxMB = 2\<close> it purges the two
  oldest tasks, with their blobs, and stops: the total falls from 3145733 to 1048581. The
  orphan phase then deletes the stray blob, and the one blob left is the one the third
  record names.
\<close>

theorem janitor_phases_witness:
  "phase1 0 5000 (collect janitor_store) = collect janitor_store \<and>
   map e_id (allTasks (phase1 1 86401500 (collect janitor_store))) = [''t2'', ''t3''] \<and>
   loadTask (dm (phase1 1 86401500 (collect janitor_store))) ''t1'' = None \<and>
   loadTask (dm (phase1 1 86401500 (collect janitor_store))) ''t2'' =
     Some (completed_task ''t2'' 2000) \<and>
   totalSize (phase1 1 86401500 (collect janitor_store)) = 2097157 \<and>
   deletedByAge (phase1 1 86401500 (collect janitor_store)) = 1 \<and>
   phase2 0 (collect janitor_store) = collect janitor_store \<and>
   phase2 4 (collect janitor_store) = collect janitor_store \<and>
   totalSize (phase2 2 (collect janitor_store)) = 1048581 \<and>
   deletedBySize (phase2 2 (collect janitor_store)) = 2 \<and>
   loadTask (dm (phase2 2 (collect janitor_store))) ''t1'' = None \<and>
   loadTask (dm (phase2 2 (collect janitor_store))) ''t2'' = None \<and>
   loadTask (dm (phase2 2 (collect janitor_store))) ''t3'' = Some (completed_task ''t3'' 3000) \<and>
   ''packages/account1/com.example.app/t1.ipa''
      \<notin> fst ` set (bucket (dm (phase2 2 (collect janitor_store)))) \<and>
   bucket (dm (phase3 (phase2 2 (collect janitor_store)))) =
     [(''packages/account1/com.example.app/t3.ipa'', 1048576)] \<and>
   ''packages/account1/com.example.app/t3.ipa''
      \<in> snd ` set (r2keys (fst (cleanupExpired janitor_store 0 2 5000)))"
proof -
  let ?j = "collect janitor_store"
  let ?e1 = "\<lparr> e_id = ''t1'', e_task = completed_task ''t1'' 1000,
                e_r2key = Some ''packages/account1/com.example.app/t1.ipa'' \<rparr>"
  let ?e2 = "\<lparr> e_id = ''t2'', e_task = completed_task ''t2'' 2000,
                e_r2key = Some ''packages/account1/com.example.app/t2.ipa'' \<rparr>"
  let ?e3 = "\<lparr> e_id = ''t3'', e_task = completed_task ''t3'' 3000,
                e_r2key = Some ''packages/account1/com.example.app/t3.ipa'' \<rparr>"
  note t0 = janitor_phases[of 0 5000 ?j 0 janitor_store]
  note t1 = janitor_phases[of 1 86401500 ?j 0 janitor_store]
  note t4 = janitor_phases[of 0 5000 ?j 4 janitor_store]
  note t2 = janitor_phases[of 0 5000 ?j 2 janitor_store]
  note skipped1 = t0[THEN conjunct1]
  note age = t1[THEN conjunct2, THEN conjunct1]
  note skipped2 = t0[THEN conjunct2, THEN conjunct2, THEN conjunct1]
  note within = t4[THEN conjunct2, THEN conjunct2, THEN conjunct1]
  note quota = t2[THEN conjunct2, THEN conjunct2, THEN conjunct2, THEN conjunct1]
  note rest = t2[THEN conjunct2, THEN conjunct2, THEN conjunct2, THEN conjunct2]
  note run = rest[THEN conjunct2, THEN conjunct2, THEN conjunct2, THEN conjunct2,
      THEN conjunct2]
  have all: "allTasks ?j = [?e1, ?e2, ?e3]" by (simp add: collect_test)
  have srt: "sort_by_createdAt (allTasks ?j) = [?e1, ?e2, ?e3]"
    unfolding all by (rule sort_test)
  have tot: "totalSize ?j = 3145733" by (simp add: collect_test)
  have sm: "sizeMap ?j = [(''packages/account1/com.example.app/t1.ipa'', 1048576),
                          (''packages/account1/com.example.app/t2.ipa'', 1048576),
                          (''packages/account1/com.example.app/t3.ipa'', 1048576),
                          (''stray.bin'', 5)]"
    by (simp add: collect_test)
  have ld: "loadTask (dm ?j) ''t2'' = Some (completed_task ''t2'' 2000)"
    "loadTask (dm ?j) ''t3'' = Some (completed_task ''t3'' 3000)"
    by (simp_all add: collect_def) (simp_all add: janitor_store_def loadTask_def)
  have P0: "purged_size (sizeMap ?j) [] = 0"
    by (simp add: purged_size_def stored_keys_def)
  have P1: "purged_size (sizeMap ?j) [?e1] = 1048576"
    unfolding sm by (simp add: purged_size_def stored_keys_def key_size_def truthy_def)
  have P2: "purged_size (sizeMap ?j) [?e1, ?e2] = 2097152"
    unfolding sm by (simp add: purged_size_def stored_keys_def key_size_def truthy_def)
  have a: "phase1 0 5000 ?j = ?j" by (rule skipped1[rule_format]) simp
  have age1: "allTasks (phase1 1 86401500 ?j) =
        filter (\<lambda>e. \<not> createdAt (e_task e) < age_cutoff 86401500 1) (allTasks ?j)"
    "\<forall>i. loadTask (dm (phase1 1 86401500 ?j)) i =
         (if i \<in> e_id ` set (aged (age_cutoff 86401500 1) (allTasks ?j)) then None
          else loadTask (dm ?j) i)"
    "totalSize (phase1 1 86401500 ?j) =
        totalSize ?j - purged_size (sizeMap ?j) (aged (age_cutoff 86401500 1) (allTasks ?j))"
    "deletedByAge (phase1 1 86401500 ?j) =
        deletedByAge ?j + length (aged (age_cutoff 86401500 1) (allTasks ?j))"
    using age[rule_format, OF zero_less_one] by blast+
  have ag: "aged (age_cutoff 86401500 1) (allTasks ?j) = [?e1]"
    unfolding all by (simp add: aged_def age_cutoff_def completed_task_simps)
  have b1: "map e_id (allTasks (phase1 1 86401500 ?j)) = [''t2'', ''t3'']"
  proof -
    show ?thesis unfolding age1(1) all by (simp add: age_cutoff_def completed_task_simps)
  qed
  have b2: "loadTask (dm (phase1 1 86401500 ?j)) ''t1'' = None"
    "loadTask (dm (phase1 1 86401500 ?j)) ''t2'' = Some (completed_task ''t2'' 2000)"
  proof -
    note l = age1(2)
    show "loadTask (dm (phase1 1 86401500 ?j)) ''t1'' = None"
      using l[rule_format, of "''t1''"] unfolding ag by simp
    show "loadTask (dm (phase1 1 86401500 ?j)) ''t2'' = Some (completed_task ''t2'' 2000)"
      using l[rule_format, of "''t2''"] unfolding ag by (simp add: ld)
  qed
  have b3: "totalSize (phase1 1 86401500 ?j) = 2097157"
  proof -
    show ?thesis unfolding age1(3) ag P1 tot by simp
  qed
  have b4: "deletedByAge (phase1 1 86401500 ?j) = 1"
  proof -
    show ?thesis unfolding age1(4) ag by (simp add: collect_def)
  qed
  have c: "phase2 0 ?j = ?j" by (rule skipped2[rule_format]) simp
  have d: "phase2 4 ?j = ?j" by (rule within[rule_format]) (simp add: tot)
  have h: "0 < (2::int) \<and> 2 * 1024 * 1024 < totalSize ?j" by (simp add: tot)
  from quota[rule_format, OF h] obtain n where n: "n \<le> length (allTasks ?j)"
    "\<forall>m < n. 2 * 1024 * 1024 <
        totalSize ?j - purged_size (sizeMap ?j) (take m (sort_by_createdAt (allTasks ?j)))"
    "n < length (allTasks ?j) \<longrightarrow>
        totalSize ?j - purged_size (sizeMap ?j) (take n (sort_by_createdAt (allTasks ?j)))
          \<le> 2 * 1024 * 1024"
    "totalSize (phase2 2 ?j) =
        totalSize ?j - purged_size (sizeMap ?j) (take n (sort_by_createdAt (allTasks ?j)))"
    "deletedBySize (phase2 2 ?j) = deletedBySize ?j + n"
    "\<forall>i. loadTask (dm (phase2 2 ?j)) i =
        (if i \<in> e_id ` set (take n (sort_by_createdAt (allTasks ?j))) then None
         else loadTask (dm ?j) i)"
    "\<forall>e \<in> set (take n (sort_by_createdAt (allTasks ?j))).
        truthy (e_r2key e) \<longrightarrow> the (e_r2key e) \<notin> fst ` set (bucket (dm (phase2 2 ?j)))"
    by blast
  have n2: "n = 2"
  proof -
    have "n \<noteq> 0"
    proof
      assume z: "n = 0"
      from n(3) show False unfolding z srt tot by (simp add: P0 all)
    qed
    moreover have "n \<noteq> Suc 0"
    proof
      assume z: "n = Suc 0"
      from n(3) show False unfolding z srt tot by (simp add: P1 all)
    qed
    moreover have "\<not> 2 < n"
    proof
      assume "2 < n"
      with n(2) have "2 * 1024 * 1024 <
        totalSize ?j - purged_size (sizeMap ?j) (take 2 (sort_by_createdAt (allTasks ?j)))"
        by blast
      then show False unfolding srt tot by (simp add: P2)
    qed
    ultimately show ?thesis by arith
  qed
  have e1: "totalSize (phase2 2 ?j) = 1048581"
    using n(4) unfolding n2 srt tot by (simp add: P2)
  have e2: "deletedBySize (phase2 2 ?j) = 2"
    using n(5) unfolding n2 by (simp add: collect_def)
  have e3: "loadTask (dm (phase2 2 ?j)) ''t1'' = None"
    "loadTask (dm (phase2 2 ?j)) ''t2'' = None"
    "loadTask (dm (phase2 2 ?j)) ''t3'' = Some (completed_task ''t3'' 3000)"
    using n(6)[rule_format, of "''t1''"] n(6)[rule_format, of "''t2''"]
      n(6)[rule_format, of "''t3''"]
    unfolding n2 srt by (simp_all add: ld)
  have e4: "''packages/account1/com.example.app/t1.ipa''
              \<notin> fst ` set (bucket (dm (phase2 2 ?j)))"
  proof -
    have "?e1 \<in> set (take n (sort_by_createdAt (allTasks ?j)))" unfolding n2 srt by simp
    moreover have "truthy (e_r2key ?e1)" by (simp add: truthy_def)
    ultimately have "the (e_r2key ?e1) \<notin> fst ` set (bucket (dm (phase2 2 ?j)))"
      using n(7) by blast
    then show ?thesis by simp
  qed
  have ce: "cleanupExpired janitor_store 0 2 5000 =
     (\<lparr> tasks = [(''t3'', completed_task ''t3'' 3000)],
        r2keys = [(''t3'', ''packages/account1/com.example.app/t3.ipa'')],
        accounts = [(''account1'', [''t3''])],
        abortControllers = {},
        bucket = [(''packages/account1/com.example.app/t3.ipa'', 1048576)] \<rparr>,
      (0, 2, 1, 1048576))"
    by (rule cleanupExpired_test)
  have f: "bucket (dm (phase3 (phase2 2 ?j))) =
             [(''packages/account1/com.example.app/t3.ipa'', 1048576)]"
  proof -
    from run have "fst (cleanupExpired janitor_store 0 2 5000) =
        dm (phase3 (phase2 2 (phase1 0 5000 ?j)))" by (rule conjunct1)
    then have "dm (phase3 (phase2 2 ?j)) = fst (cleanupExpired janitor_store 0 2 5000)"
      unfolding a by (rule sym)
    then show ?thesis unfolding ce by simp
  qed
  have "''packages/account1/com.example.app/t3.ipa''
          \<in> fst ` set (bucket (fst (cleanupExpired janitor_store 0 2 5000)))"
    unfolding ce by simp
  with run[THEN conjunct2] have g: "''packages/account1/com.example.app/t3.ipa''
      \<in> snd ` set (r2keys (fst (cleanupExpired janitor_store 0 2 5000)))" by blast
  from a b1 b2 b3 b4 c d e1 e2 e3 e4 f g show ?thesis by (intro conjI)
qed

section \<open>Appending nothing\<close>

lemma r2_readRange_of:
  "r2_objects st key = Some A \<Longrightarrow> r2_readRange st key = readRange_of A"
  by (simp add: r2_readRange_def readRange_of_def fun_eq_iff)

lemma injectSinf_no_files:
  assumes "r2_objects st r2key = Some A"
    and "locate_cd (length A) (r2_readRange st r2key) = Inr (eocd, entries)"
    and "buildFilesToAppend entries (r2_readRange st r2key) = Inr []"
  shows "injectSinf maxArgs buildFilesToAppend r2key st = (None, st)"
  using assms by (simp add: injectSinf_def Let_def)

text \<open>
  Claim C10 (appending an empty list is the identity). For every archive size, reader,
  precomputed directory and limit of the engine on the arguments of a call,
  \<open>appendToZipTail\<close> with no file returns the archive size as \<open>cdOffset\<close> and the empty
  tail, so the rewritten archive is the original, byte for byte; \<open>appendToZip\<close> with no file returns what \<open>readPrefix\<close> gives for the whole archive,
  which is the archive itself for the reader of an archive held in memory; and
  \<open>injectSinf\<close> returns without an error and without a write (the blob store and the log
  of its writing calls are unchanged) when there is no file to append.
\<close>

theorem append_empty_identity:
  "appendToZipTail maxArgs archiveSize readRange [] precomputed = Inr (archiveSize, []) \<and>
   rewritten maxArgs A [] = Inr A \<and>
   appendToZip maxArgs archiveSize readRange [] readPrefix = readPrefix archiveSize \<and>
   appendToZip maxArgs (length A) readRange [] (readPrefix_of A) = Inr A \<and>
   (r2_objects st r2key = Some A \<and>
    locate_cd (length A) (r2_readRange st r2key) = Inr (eocd, entries) \<and>
    buildFilesToAppend entries (r2_readRange st r2key) = Inr []
      \<longrightarrow> injectSinf maxArgs buildFilesToAppend r2key st = (None, st))"
  by (simp add: appendToZipTail_def rewritten_empty appendToZip_def readPrefix_of_def
      subarray_def injectSinf_no_files)

text \<open>
  The theorem on the archive of one entry, stored as the blob of the task \<open>t1\<close>, with a
  builder that finds nothing to append.
\<close>

theorem append_empty_identity_witness:
  "injectSinf 4 (\<lambda>entries readRange. Inr [])
     ''packages/account1/com.example.app/t1.ipa'' (store_of one_entry_zip) =
     (None, store_of one_entry_zip)"
proof -
  have o: "r2_objects (store_of one_entry_zip) ''packages/account1/com.example.app/t1.ipa''
             = Some one_entry_zip"
    by (simp add: store_of_def)
  have l: "locate_cd (length one_entry_zip)
             (r2_readRange (store_of one_entry_zip) ''packages/account1/com.example.app/t1.ipa'')
           = Inr (one_entry_eocd, [one_entry])"
    by (simp only: r2_readRange_of[OF o] locate_cd_valid[OF valid_one_entry_zip])
  from append_empty_identity[of _ _ _ _ one_entry_zip _ "store_of one_entry_zip"
      "''packages/account1/com.example.app/t1.ipa''" one_entry_eocd "[one_entry]"
      "\<lambda>entries readRange. Inr []"] o l
  show ?thesis by simp
qed

section \<open>The injection step writes the rewritten archive\<close>

lemma copy_loop_parts:
  assumes "(ta \<and> concat (map snd ps) = take cdOff A @ tail \<and> cdOff \<le> off)
           \<or> (\<not> ta \<and> concat (map snd ps) = take off A \<and> off \<le> cdOff)"
  shows "\<exists>ps' n' ta'.
           copy_loop (readRange_of A) cdOff tail off ps n ta = (None, ps', n', ta') \<and>
           concat (map snd (if \<not> ta' then ps' @ [(n', tail)] else ps')) = take cdOff A @ tail"
  using assms
proof (induction "cdOff - off" arbitrary: off ps n ta rule: less_induct)
  case less
  show ?case
  proof (cases "off < cdOff")
    case False
    have "copy_loop (readRange_of A) cdOff tail off ps n ta = (None, ps, n, ta)"
      using False by (subst copy_loop.simps) simp
    moreover have "concat (map snd (if \<not> ta then ps @ [(n, tail)] else ps)) = take cdOff A @ tail"
      using less.prems False by auto
    ultimately show ?thesis by blast
  next
    case True
    with less.prems have nta: "\<not> ta" and ps: "concat (map snd ps) = take off A" by auto
    define len where "len = min COPY_CHUNK (cdOff - off)"
    define chunk where "chunk = take len (drop off A)"
    have rr: "readRange_of A off (off + len) = Inr chunk"
      by (simp add: readRange_of_def subarray_def chunk_def)
    have pos: "0 < COPY_CHUNK" by (simp add: COPY_CHUNK_def)
    have dec: "cdOff - (off + COPY_CHUNK) < cdOff - off" using True pos by simp
    show ?thesis
    proof (cases "off + len \<ge> cdOff")
      case last: True
      then have l: "len = cdOff - off" using True by (simp add: len_def)
      have step: "copy_loop (readRange_of A) cdOff tail off ps n ta =
                    copy_loop (readRange_of A) cdOff tail (off + COPY_CHUNK)
                      (ps @ [(n, chunk @ tail)]) (n + 1) True"
        using True last rr
        by (subst copy_loop.simps) (simp add: Let_def len_def[symmetric])
      have "take off A @ take (cdOff - off) (drop off A) = take cdOff A"
        using True take_add[of off "cdOff - off" A] by simp
      then have c: "concat (map snd (ps @ [(n, chunk @ tail)])) = take cdOff A @ tail"
        by (simp add: ps chunk_def l)
      have "cdOff \<le> off + COPY_CHUNK" using last by (simp add: len_def)
      with c have "(True \<and> concat (map snd (ps @ [(n, chunk @ tail)])) = take cdOff A @ tail
                     \<and> cdOff \<le> off + COPY_CHUNK)
                   \<or> (\<not> True \<and> concat (map snd (ps @ [(n, chunk @ tail)])) = take (off + COPY_CHUNK) A
                        \<and> off + COPY_CHUNK \<le> cdOff)"
        by simp
      from less.hyps[OF dec this, of "n + 1"] show ?thesis by (simp only: step)
    next
      case notlast: False
      then have l: "len = COPY_CHUNK" by (simp add: len_def min_def split: if_splits)
      have step: "copy_loop (readRange_of A) cdOff tail off ps n ta =
                    copy_loop (readRange_of A) cdOff tail (off + COPY_CHUNK)
                      (ps @ [(n, chunk)]) (n + 1) ta"
        using True notlast rr
        by (subst copy_loop.simps) (simp add: Let_def len_def[symmetric])
      have "take off A @ take COPY_CHUNK (drop off A) = take (off + COPY_CHUNK) A"
        by (simp add: take_add)
      then have c: "concat (map snd (ps @ [(n, chunk)])) = take (off + COPY_CHUNK) A"
        by (simp add: ps chunk_def l)
      have "off + COPY_CHUNK \<le> cdOff" using notlast l by simp
      with c nta have "(ta \<and> concat (map snd (ps @ [(n, chunk)])) = take cdOff A @ tail
                     \<and> cdOff \<le> off + COPY_CHUNK)
                   \<or> (\<not> ta \<and> concat (map snd (ps @ [(n, chunk)])) = take (off + COPY_CHUNK) A
                        \<and> off + COPY_CHUNK \<le> cdOff)"
        by simp
      from less.hyps[OF dec this, of "n + 1"] show ?thesis by (simp only: step)
    qed
  qed
qed

text \<open>
  On a valid archive and a non-empty list of files, the object at the key becomes the
  rewritten archive, and the temporary object is gone.
\<close>

lemma injectSinf_rewrites:
  assumes v: "valid_archive A e es" and ne: "fs \<noteq> []"
    and ar: "2 * length fs + length es + 1 \<le> maxArgs"
    and obj: "r2_objects st r2key = Some A"
    and bf: "buildFilesToAppend es (readRange_of A) = Inr fs"
  shows "fst (injectSinf maxArgs buildFilesToAppend r2key st) = None \<and>
         r2_objects (snd (injectSinf maxArgs buildFilesToAppend r2key st)) =
           ((r2_objects st)(r2key \<mapsto> take (cdOffset e) A @ concat (tail_arrays e es fs)))
             (r2key @ ''.new'' := None) \<and>
         rewritten maxArgs A fs = Inr (take (cdOffset e) A @ concat (tail_arrays e es fs))"
proof -
  define tl where "tl = concat (tail_arrays e es fs)"
  have rr: "r2_readRange st r2key = readRange_of A" by (rule r2_readRange_of[OF obj])
  have lc: "locate_cd (length A) (readRange_of A) = Inr (e, es)" by (rule locate_cd_valid[OF v])
  have at: "appendToZipTail maxArgs (length A) (readRange_of A) fs (Some (e, es)) =
              Inr (cdOffset e, tl)"
    using ne by (simp add: appendToZipTail_def build_tail_within[OF ar] tl_def)
  have "(False \<and> concat (map snd []) = take (cdOffset e) A @ tl \<and> cdOffset e \<le> 0)
        \<or> (\<not> False \<and> concat (map snd ([] :: (nat \<times> bytes) list)) = take 0 A \<and> 0 \<le> cdOffset e)"
    by simp
  from copy_loop_parts[OF this, of "Suc 0"]
  obtain ps' n' ta' where cl:
    "copy_loop (readRange_of A) (cdOffset e) tl 0 [] (Suc 0) False = (None, ps', n', ta')"
    "concat (map snd (if \<not> ta' then ps' @ [(n', tl)] else ps')) = take (cdOffset e) A @ tl"
    by blast
  have "injectSinf maxArgs buildFilesToAppend r2key st =
     (None,
      st\<lparr> r2_writes := r2_writes st @ [CreateMultipartUpload (r2key @ ''.new'')]
              @ map (\<lambda>(n, d). UploadPart (r2key @ ''.new'') n d)
                  (if \<not> ta' then ps' @ [(n', tl)] else ps')
              @ [CompleteUpload (r2key @ ''.new''),
                 PutObject r2key (take (cdOffset e) A @ tl),
                 DeleteObject (r2key @ ''.new'')],
           r2_objects := ((r2_objects st)(r2key \<mapsto> take (cdOffset e) A @ tl))
                           (r2key @ ''.new'' := None) \<rparr>)"
    using ne cl(2)
    by (simp add: injectSinf_def obj rr lc bf at cl(1) Let_def fun_upd_twist)
  then show ?thesis using rewritten_nonempty[OF v ne ar] by (simp add: tl_def)
qed

text \<open>
  When the arrays of the tail are more than the engine takes as arguments, the step
  fails before its first write.
\<close>

lemma injectSinf_beyond:
  assumes v: "valid_archive A e es" and ne: "fs \<noteq> []"
    and ar: "maxArgs < 2 * length fs + length es + 1"
    and obj: "r2_objects st r2key = Some A"
    and bf: "buildFilesToAppend es (readRange_of A) = Inr fs"
  shows "injectSinf maxArgs buildFilesToAppend r2key st = (Some CallStackExceeded, st)"
proof -
  have rr: "r2_readRange st r2key = readRange_of A" by (rule r2_readRange_of[OF obj])
  have lc: "locate_cd (length A) (readRange_of A) = Inr (e, es)" by (rule locate_cd_valid[OF v])
  have at: "appendToZipTail maxArgs (length A) (readRange_of A) fs (Some (e, es)) =
              Inl CallStackExceeded"
    using ne by (simp add: appendToZipTail_def build_tail_beyond[OF ar])
  show ?thesis using ne by (simp add: injectSinf_def obj rr lc bf at Let_def)
qed

end
